theory Spec2Isabelle
  imports Main "HOL-Library.Word"
begin

section \<open>Status values, record kinds and decoded entries\<close>

text \<open>
  A \<open>Slice\<close> is a view of bytes. \<open>Status\<close> keeps the code and what the source puts in
  the message; the second message part of a \<open>Corruption\<close> (the source prints a number
  with \<open>ToString\<close>) is kept as the value that is printed: the \<open>unsigned int\<close> that
  \<open>static_cast<unsigned int>(tag)\<close> gives for an unknown tag, the record type for an
  unexpected record.
\<close>

type_synonym Slice = "8 word list"

datatype WriteType =
    kPutRecord
  | kMergeRecord
  | kDeleteRecord
  | kSingleDeleteRecord
  | kDeleteRangeRecord
  | kLogDataRecord
  | kXIDRecord

datatype Detail = NoDetail | TagCode "32 word" | TypeCode WriteType

datatype Status =
    OK
  | NotFound
  | Corruption string Detail
  | InvalidArgument string
  | NotSupported string

definition ok :: "Status \<Rightarrow> bool" where
  "ok s = (s = OK)"

record ('k, 'v) WriteEntry =
  we_type :: WriteType
  we_key :: 'k
  we_value :: 'v

section \<open>The record decoder: \<open>ReadableWriteBatch::GetEntryFromDataOffset\<close>\<close>

text \<open>
  The tag constants of \<open>db/dbformat.h\<close> are not part of the sources at hand; they are a
  parameter, a table of the values the case labels have. C++ case labels are pairwise
  different, which \<open>tags_distinct\<close> says.
\<close>

record TagTable =
  kTypeDeletion :: int
  kTypeValue :: int
  kTypeMerge :: int
  kTypeLogData :: int
  kTypeColumnFamilyDeletion :: int
  kTypeColumnFamilyValue :: int
  kTypeColumnFamilyMerge :: int
  kTypeSingleDeletion :: int
  kTypeColumnFamilySingleDeletion :: int
  kTypeBeginPrepareXID :: int
  kTypeEndPrepareXID :: int
  kTypeCommitXID :: int
  kTypeRollbackXID :: int
  kTypeNoop :: int
  kTypeColumnFamilyRangeDeletion :: int
  kTypeRangeDeletion :: int
  kTypeBeginPersistedPrepareXID :: int
  kTypeBeginUnprepareXID :: int

definition tag_list :: "TagTable \<Rightarrow> int list" where
  "tag_list T =
     [kTypeValue T, kTypeColumnFamilyValue T,
      kTypeDeletion T, kTypeColumnFamilyDeletion T,
      kTypeSingleDeletion T, kTypeColumnFamilySingleDeletion T,
      kTypeRangeDeletion T, kTypeColumnFamilyRangeDeletion T,
      kTypeMerge T, kTypeColumnFamilyMerge T,
      kTypeLogData T,
      kTypeNoop T, kTypeBeginPrepareXID T, kTypeBeginPersistedPrepareXID T,
      kTypeBeginUnprepareXID T, kTypeEndPrepareXID T, kTypeCommitXID T,
      kTypeRollbackXID T]"

definition tags_distinct :: "TagTable \<Rightarrow> bool" where
  "tags_distinct T = distinct (tag_list T)"

text \<open>
  The tag is held in a \<open>char\<close>, which is taken to be signed, as it is on the usual
  targets. \<open>switch (tag)\<close> compares the tag after integral promotion, a number from
  \<open>-128\<close> to \<open>127\<close>, with the case labels; \<open>static_cast<unsigned int>(tag)\<close> extends
  the sign, so that the byte \<open>0xFF\<close> is printed as \<open>4294967295\<close>.
\<close>

definition promoted :: "8 word \<Rightarrow> int" where
  "promoted tag = sint tag"

definition to_unsigned_int :: "8 word \<Rightarrow> 32 word" where
  "to_unsigned_int tag = word_of_int (sint tag)"

text \<open>The \<open>switch (tag)\<close> of the decoder; \<open>None\<close> is its \<open>default\<close> branch.\<close>

definition tag_to_type :: "TagTable \<Rightarrow> 8 word \<Rightarrow> WriteType option" where
  "tag_to_type T tag =
     (let t = promoted tag
      in if t = kTypeColumnFamilyValue T \<or> t = kTypeValue T then Some kPutRecord
         else if t = kTypeColumnFamilyDeletion T \<or> t = kTypeDeletion T
           then Some kDeleteRecord
         else if t = kTypeColumnFamilySingleDeletion T \<or> t = kTypeSingleDeletion T
           then Some kSingleDeleteRecord
         else if t = kTypeColumnFamilyRangeDeletion T \<or> t = kTypeRangeDeletion T
           then Some kDeleteRangeRecord
         else if t = kTypeColumnFamilyMerge T \<or> t = kTypeMerge T then Some kMergeRecord
         else if t = kTypeLogData T then Some kLogDataRecord
         else if t = kTypeNoop T \<or> t = kTypeBeginPrepareXID T
                 \<or> t = kTypeBeginPersistedPrepareXID T \<or> t = kTypeBeginUnprepareXID T
                 \<or> t = kTypeEndPrepareXID T \<or> t = kTypeCommitXID T
                 \<or> t = kTypeRollbackXID T
           then Some kXIDRecord
         else None)"

text \<open>
  \<open>ReadRecordFromWriteBatch\<close> (\<open>db/write_batch.cc\<close>) is not part of the sources at hand
  either. It is a parameter \<open>rr\<close>: from the input slice it gives its status and what it
  has written through its output pointers.
\<close>

record RawRecord =
  rr_tag :: "8 word"
  rr_column_family :: "32 word"
  rr_key :: Slice
  rr_value :: Slice
  rr_blob :: Slice
  rr_xid :: Slice

type_synonym RecordReader = "Slice \<Rightarrow> Status \<times> RawRecord"

text \<open>
  The five output pointers: \<open>None\<close> is \<open>nullptr\<close>, \<open>Some x\<close> a pointer to a cell that
  holds \<open>x\<close>. The function returns its status and the cells as it leaves them.
\<close>

record OutParams =
  p_type :: "WriteType option"
  p_key :: "Slice option"
  p_value :: "Slice option"
  p_blob :: "Slice option"
  p_xid :: "Slice option"

definition GetEntryFromDataOffset ::
  "RecordReader \<Rightarrow> TagTable \<Rightarrow> Slice \<Rightarrow> nat \<Rightarrow> OutParams \<Rightarrow> Status \<times> OutParams" where
  "GetEntryFromDataOffset rr T rep data_offset ps =
     (if p_type ps = None \<or> p_key ps = None \<or> p_value ps = None
         \<or> p_blob ps = None \<or> p_xid ps = None
      then (InvalidArgument ''Output parameters cannot be null'', ps)
      else if data_offset = length rep then (NotFound, ps)
      else if data_offset > length rep
        then (InvalidArgument ''data offset exceed write batch size'', ps)
      else
        let input = drop data_offset rep;
            (s, r) = rr input;
            ps1 = ps\<lparr>p_key := Some (rr_key r), p_value := Some (rr_value r),
                     p_blob := Some (rr_blob r), p_xid := Some (rr_xid r)\<rparr>
        in if \<not> ok s then (s, ps1)
           else (case tag_to_type T (rr_tag r) of
                   Some t \<Rightarrow> (OK, ps1\<lparr>p_type := Some t\<rparr>)
                 | None \<Rightarrow>
                     (Corruption ''unknown WriteBatch tag ''
                        (TagCode (to_unsigned_int (rr_tag r))), ps1)))"

section \<open>The merging iterator: \<open>BaseDeltaIterator\<close>\<close>

subsection \<open>Keys, read options and the two sub-iterators\<close>

text \<open>
  \<open>Comparator\<close> (\<open>rocksdb/comparator.h\<close>) is a total order on keys. Keys are the
  elements of a linearly ordered type, \<open>comparator_->Compare\<close> is the three-way
  comparison of that order and \<open>comparator_->Equal\<close> is equality.
\<close>

definition Compare :: "'k::linorder \<Rightarrow> 'k \<Rightarrow> int" where
  "Compare a b = (if a < b then - 1 else if a = b then 0 else 1)"

definition Equal :: "'k::linorder \<Rightarrow> 'k \<Rightarrow> bool" where
  "Equal a b = (a = b)"

text \<open>\<open>ReadOptions\<close>: the two bounds, each a pointer that may be null.\<close>

record 'k ReadOptions =
  iterate_lower_bound :: "'k option"
  iterate_upper_bound :: "'k option"

text \<open>
  Modelled from the spec: the cursors behind \<open>Iterator\<close> and \<open>WBWIIterator\<close> (the base
  iterator and the delta iterator are owned collaborators; only their interfaces are
  used). A cursor walks a list in key order; \<open>None\<close> is the position that is not valid.
  \<open>Next\<close> and \<open>Prev\<close> require a valid position; a cursor that is not valid stays so.
\<close>

type_synonym cursor = "nat option"

definition cur_valid :: "'a list \<Rightarrow> cursor \<Rightarrow> bool" where
  "cur_valid xs c = (case c of None \<Rightarrow> False | Some i \<Rightarrow> i < length xs)"

definition cur_first :: "'a list \<Rightarrow> cursor" where
  "cur_first xs = (if xs = [] then None else Some 0)"

definition cur_last :: "'a list \<Rightarrow> cursor" where
  "cur_last xs = (if xs = [] then None else Some (length xs - 1))"

definition cur_next :: "'a list \<Rightarrow> cursor \<Rightarrow> cursor" where
  "cur_next xs c =
     (case c of None \<Rightarrow> None
      | Some i \<Rightarrow> if Suc i < length xs then Some (Suc i) else None)"

definition cur_prev :: "'a list \<Rightarrow> cursor \<Rightarrow> cursor" where
  "cur_prev xs c = (case c of None \<Rightarrow> None | Some i \<Rightarrow> if i = 0 then None else Some (i - 1))"

text \<open>\<open>Seek\<close>: the first position whose key is at least the target.\<close>

definition cur_seek :: "('a \<Rightarrow> 'k::linorder) \<Rightarrow> 'a list \<Rightarrow> 'k \<Rightarrow> cursor" where
  "cur_seek kf xs k =
     (let n = length (takeWhile (\<lambda>x. kf x < k) xs)
      in if n < length xs then Some n else None)"

text \<open>\<open>SeekForPrev\<close>: the last position whose key is at most the target.\<close>

definition cur_seek_for_prev :: "('a \<Rightarrow> 'k::linorder) \<Rightarrow> 'a list \<Rightarrow> 'k \<Rightarrow> cursor" where
  "cur_seek_for_prev kf xs k =
     (let n = length (takeWhile (\<lambda>x. kf x \<le> k) xs)
      in if n = 0 then None else Some (n - 1))"

text \<open>
  The base iterator: its entries in key order, its position, its status, and what it
  reports through \<open>ChecksUpperBound\<close>, \<open>upper_bound\<close> and \<open>lower_bound\<close>.
\<close>

record ('k, 'v) BaseIter =
  b_items :: "('k \<times> 'v) list"
  b_pos :: cursor
  b_status :: Status
  b_checks_upper :: bool
  b_upper :: "'k option"
  b_lower :: "'k option"

text \<open>The delta iterator: the decoded entries of one column family in index order.\<close>

record ('k, 'v) DeltaIter =
  d_items :: "('k, 'v) WriteEntry list"
  d_pos :: cursor
  d_status :: Status

definition b_Valid :: "('k, 'v) BaseIter \<Rightarrow> bool" where
  "b_Valid b = cur_valid (b_items b) (b_pos b)"

definition b_key :: "('k, 'v) BaseIter \<Rightarrow> 'k" where
  "b_key b = fst (b_items b ! the (b_pos b))"

definition b_value :: "('k, 'v) BaseIter \<Rightarrow> 'v" where
  "b_value b = snd (b_items b ! the (b_pos b))"

definition b_SeekToFirst :: "('k, 'v) BaseIter \<Rightarrow> ('k, 'v) BaseIter" where
  "b_SeekToFirst b = b\<lparr>b_pos := cur_first (b_items b)\<rparr>"

definition b_SeekToLast :: "('k, 'v) BaseIter \<Rightarrow> ('k, 'v) BaseIter" where
  "b_SeekToLast b = b\<lparr>b_pos := cur_last (b_items b)\<rparr>"

definition b_Seek :: "'k::linorder \<Rightarrow> ('k, 'v) BaseIter \<Rightarrow> ('k, 'v) BaseIter" where
  "b_Seek k b = b\<lparr>b_pos := cur_seek fst (b_items b) k\<rparr>"

definition b_SeekForPrev :: "'k::linorder \<Rightarrow> ('k, 'v) BaseIter \<Rightarrow> ('k, 'v) BaseIter" where
  "b_SeekForPrev k b = b\<lparr>b_pos := cur_seek_for_prev fst (b_items b) k\<rparr>"

definition b_Next :: "('k, 'v) BaseIter \<Rightarrow> ('k, 'v) BaseIter" where
  "b_Next b = b\<lparr>b_pos := cur_next (b_items b) (b_pos b)\<rparr>"

definition b_Prev :: "('k, 'v) BaseIter \<Rightarrow> ('k, 'v) BaseIter" where
  "b_Prev b = b\<lparr>b_pos := cur_prev (b_items b) (b_pos b)\<rparr>"

definition d_Valid :: "('k, 'v) DeltaIter \<Rightarrow> bool" where
  "d_Valid d = cur_valid (d_items d) (d_pos d)"

definition d_Entry :: "('k, 'v) DeltaIter \<Rightarrow> ('k, 'v) WriteEntry" where
  "d_Entry d = d_items d ! the (d_pos d)"

definition d_SeekToFirst :: "('k, 'v) DeltaIter \<Rightarrow> ('k, 'v) DeltaIter" where
  "d_SeekToFirst d = d\<lparr>d_pos := cur_first (d_items d)\<rparr>"

definition d_SeekToLast :: "('k, 'v) DeltaIter \<Rightarrow> ('k, 'v) DeltaIter" where
  "d_SeekToLast d = d\<lparr>d_pos := cur_last (d_items d)\<rparr>"

definition d_Seek :: "'k::linorder \<Rightarrow> ('k, 'v) DeltaIter \<Rightarrow> ('k, 'v) DeltaIter" where
  "d_Seek k d = d\<lparr>d_pos := cur_seek we_key (d_items d) k\<rparr>"

definition d_SeekForPrev :: "'k::linorder \<Rightarrow> ('k, 'v) DeltaIter \<Rightarrow> ('k, 'v) DeltaIter" where
  "d_SeekForPrev k d = d\<lparr>d_pos := cur_seek_for_prev we_key (d_items d) k\<rparr>"

definition d_Next :: "('k, 'v) DeltaIter \<Rightarrow> ('k, 'v) DeltaIter" where
  "d_Next d = d\<lparr>d_pos := cur_next (d_items d) (d_pos d)\<rparr>"

definition d_Prev :: "('k, 'v) DeltaIter \<Rightarrow> ('k, 'v) DeltaIter" where
  "d_Prev d = d\<lparr>d_pos := cur_prev (d_items d) (d_pos d)\<rparr>"

subsection \<open>The iterator's state\<close>

text \<open>
  The members \<open>progress_\<close>, \<open>current_at_base_\<close>, \<open>equal_keys_\<close>, \<open>status_\<close>,
  \<open>base_iterator_\<close>, \<open>delta_iterator_\<close> and \<open>read_options_\<close> of the source are the
  fields \<open>m_progress\<close>, ... of the record (a name cannot end in an underscore here).
  \<open>Progress\<close> is the source's enum, \<open>progress_num\<close> its numeric values.
\<close>

datatype Progress =
    TO_BE_DETERMINED
  | SEEK_TO_FIRST
  | SEEK
  | FORWARD
  | BACKWARD
  | SEEK_FOR_PREV
  | SEEK_TO_LAST

fun progress_num :: "Progress \<Rightarrow> nat" where
  "progress_num TO_BE_DETERMINED = 0"
| "progress_num SEEK_TO_FIRST = 1"
| "progress_num SEEK = 2"
| "progress_num FORWARD = 3"
| "progress_num BACKWARD = 4"
| "progress_num SEEK_FOR_PREV = 5"
| "progress_num SEEK_TO_LAST = 6"

record ('k, 'v) BaseDeltaIterator =
  m_progress :: Progress
  m_current_at_base :: bool
  m_equal_keys :: bool
  m_status :: Status
  m_base_iterator :: "('k, 'v) BaseIter"
  m_delta_iterator :: "('k, 'v) DeltaIter"
  m_read_options :: "'k ReadOptions option"

definition new_BaseDeltaIterator ::
  "('k, 'v) BaseIter \<Rightarrow> ('k, 'v) DeltaIter \<Rightarrow> 'k ReadOptions option
     \<Rightarrow> ('k, 'v) BaseDeltaIterator" where
  "new_BaseDeltaIterator base_iterator delta_iterator read_options =
     \<lparr>m_progress = TO_BE_DETERMINED, m_current_at_base = True, m_equal_keys = False,
      m_status = OK, m_base_iterator = base_iterator, m_delta_iterator = delta_iterator,
      m_read_options = read_options\<rparr>"

definition IsMovingForward :: "('k, 'v) BaseDeltaIterator \<Rightarrow> bool" where
  "IsMovingForward it = (progress_num (m_progress it) < progress_num BACKWARD)"

definition IsMovingBackward :: "('k, 'v) BaseDeltaIterator \<Rightarrow> bool" where
  "IsMovingBackward it = (progress_num (m_progress it) > progress_num FORWARD)"

definition base_iterator_upper_bound :: "('k, 'v) BaseDeltaIterator \<Rightarrow> 'k option" where
  "base_iterator_upper_bound it =
     (case b_upper (m_base_iterator it) of
        Some u \<Rightarrow> Some u
      | None \<Rightarrow> (case m_read_options it of
                   Some ro \<Rightarrow> iterate_upper_bound ro
                 | None \<Rightarrow> None))"

definition base_iterator_lower_bound :: "('k, 'v) BaseDeltaIterator \<Rightarrow> 'k option" where
  "base_iterator_lower_bound it =
     (case b_lower (m_base_iterator it) of
        Some l \<Rightarrow> Some l
      | None \<Rightarrow> (case m_read_options it of
                   Some ro \<Rightarrow> iterate_lower_bound ro
                 | None \<Rightarrow> None))"

text \<open>The \<open>iterate_upper_bound\<close> / \<open>iterate_lower_bound\<close> of a \<open>read_options_\<close> that may be null.\<close>

definition ro_upper :: "('k, 'v) BaseDeltaIterator \<Rightarrow> 'k option" where
  "ro_upper it = (case m_read_options it of Some ro \<Rightarrow> iterate_upper_bound ro | None \<Rightarrow> None)"

definition ro_lower :: "('k, 'v) BaseDeltaIterator \<Rightarrow> 'k option" where
  "ro_lower it = (case m_read_options it of Some ro \<Rightarrow> iterate_lower_bound ro | None \<Rightarrow> None)"

definition BaseIsWithinBounds :: "('k::linorder, 'v) BaseDeltaIterator \<Rightarrow> bool" where
  "BaseIsWithinBounds it =
     (if IsMovingBackward it \<and> base_iterator_lower_bound it \<noteq> None
      then Compare (b_key (m_base_iterator it)) (the (base_iterator_lower_bound it)) \<ge> 0
      else if IsMovingForward it \<and> base_iterator_upper_bound it \<noteq> None
      then Compare (b_key (m_base_iterator it)) (the (base_iterator_upper_bound it)) < 0
      else True)"

definition DeltaIsWithinBounds :: "('k::linorder, 'v) BaseDeltaIterator \<Rightarrow> bool" where
  "DeltaIsWithinBounds it =
     (if IsMovingBackward it \<and> ro_lower it \<noteq> None
      then Compare (we_key (d_Entry (m_delta_iterator it))) (the (ro_lower it)) \<ge> 0
      else if IsMovingForward it \<and> ro_upper it \<noteq> None
      then Compare (we_key (d_Entry (m_delta_iterator it))) (the (ro_upper it)) < 0
      else True)"

definition BaseValid :: "('k::linorder, 'v) BaseDeltaIterator \<Rightarrow> bool" where
  "BaseValid it =
     (b_Valid (m_base_iterator it) \<and>
      (if b_checks_upper (m_base_iterator it) then True else BaseIsWithinBounds it))"

definition DeltaValid :: "('k::linorder, 'v) BaseDeltaIterator \<Rightarrow> bool" where
  "DeltaValid it = (d_Valid (m_delta_iterator it) \<and> DeltaIsWithinBounds it)"

definition Valid :: "('k::linorder, 'v) BaseDeltaIterator \<Rightarrow> bool" where
  "Valid it =
     (if ok (m_status it) then (if m_current_at_base it then BaseValid it else DeltaValid it)
      else False)"

definition key :: "('k, 'v) BaseDeltaIterator \<Rightarrow> 'k" where
  "key it =
     (if m_current_at_base it then b_key (m_base_iterator it)
      else we_key (d_Entry (m_delta_iterator it)))"

definition val :: "('k, 'v) BaseDeltaIterator \<Rightarrow> 'v" where
  "val it =
     (if m_current_at_base it then b_value (m_base_iterator it)
      else we_value (d_Entry (m_delta_iterator it)))"

definition status :: "('k, 'v) BaseDeltaIterator \<Rightarrow> Status" where
  "status it =
     (if \<not> ok (m_status it) then m_status it
      else if \<not> ok (b_status (m_base_iterator it)) then b_status (m_base_iterator it)
      else d_status (m_delta_iterator it))"

definition AdvanceDelta :: "('k, 'v) BaseDeltaIterator \<Rightarrow> ('k, 'v) BaseDeltaIterator" where
  "AdvanceDelta it =
     (if IsMovingForward it then it\<lparr>m_delta_iterator := d_Next (m_delta_iterator it)\<rparr>
      else it\<lparr>m_delta_iterator := d_Prev (m_delta_iterator it)\<rparr>)"

definition AdvanceBase :: "('k, 'v) BaseDeltaIterator \<Rightarrow> ('k, 'v) BaseDeltaIterator" where
  "AdvanceBase it =
     (if IsMovingForward it then it\<lparr>m_base_iterator := b_Next (m_base_iterator it)\<rparr>
      else it\<lparr>m_base_iterator := b_Prev (m_base_iterator it)\<rparr>)"

definition is_tombstone :: "('k, 'v) WriteEntry \<Rightarrow> bool" where
  "is_tombstone e = (we_type e = kDeleteRecord \<or> we_type e = kSingleDeleteRecord)"

subsection \<open>\<open>UpdateCurrent\<close>\<close>

text \<open>
  One round of the \<open>while (true)\<close> loop of \<open>UpdateCurrent\<close> either returns
  (\<open>Return\<close>) or moves the delta iterator on, and with it the base iterator when the
  keys are equal, and goes round again (\<open>Again\<close>). \<open>delta_entry\<close> is read only where
  \<open>DeltaValid\<close> holds.
  \<open>AssertInvariants\<close> stands after the loop, which is left by \<open>return\<close> only, so it is
  never run.
\<close>

definition delta_rest :: "('k, 'v) BaseDeltaIterator \<Rightarrow> nat" where
  "delta_rest it =
     (case d_pos (m_delta_iterator it) of
        None \<Rightarrow> 0
      | Some i \<Rightarrow> if IsMovingForward it then length (d_items (m_delta_iterator it)) - i
                  else Suc i)"

lemma delta_rest_AdvanceDelta:
  "d_Valid (m_delta_iterator it) \<Longrightarrow> delta_rest (AdvanceDelta it) < delta_rest it"
  by (auto simp: delta_rest_def AdvanceDelta_def d_Valid_def cur_valid_def d_Next_def
      d_Prev_def cur_next_def cur_prev_def IsMovingForward_def split: option.splits)

lemma delta_rest_AdvanceBase [simp]: "delta_rest (AdvanceBase it) = delta_rest it"
  by (simp add: delta_rest_def AdvanceBase_def IsMovingForward_def split: option.splits)

lemma delta_rest_flags [simp]:
  "delta_rest (it\<lparr>m_equal_keys := e\<rparr>) = delta_rest it"
  "delta_rest (it\<lparr>m_current_at_base := c\<rparr>) = delta_rest it"
  by (simp_all add: delta_rest_def IsMovingForward_def split: option.splits)

lemma direction_flags [simp]:
  "IsMovingForward (it\<lparr>m_equal_keys := e\<rparr>) = IsMovingForward it"
  "IsMovingForward (it\<lparr>m_current_at_base := c\<rparr>) = IsMovingForward it"
  "IsMovingForward (it\<lparr>m_status := s\<rparr>) = IsMovingForward it"
  "IsMovingBackward (it\<lparr>m_equal_keys := e\<rparr>) = IsMovingBackward it"
  "IsMovingBackward (it\<lparr>m_current_at_base := c\<rparr>) = IsMovingBackward it"
  "IsMovingBackward (it\<lparr>m_status := s\<rparr>) = IsMovingBackward it"
  by (simp_all add: IsMovingForward_def IsMovingBackward_def)

lemma bounds_flags [simp]:
  "ro_upper (it\<lparr>m_equal_keys := e\<rparr>) = ro_upper it"
  "ro_upper (it\<lparr>m_current_at_base := c\<rparr>) = ro_upper it"
  "ro_upper (it\<lparr>m_status := s\<rparr>) = ro_upper it"
  "ro_lower (it\<lparr>m_equal_keys := e\<rparr>) = ro_lower it"
  "ro_lower (it\<lparr>m_current_at_base := c\<rparr>) = ro_lower it"
  "ro_lower (it\<lparr>m_status := s\<rparr>) = ro_lower it"
  "base_iterator_upper_bound (it\<lparr>m_equal_keys := e\<rparr>) = base_iterator_upper_bound it"
  "base_iterator_upper_bound (it\<lparr>m_current_at_base := c\<rparr>) = base_iterator_upper_bound it"
  "base_iterator_upper_bound (it\<lparr>m_status := s\<rparr>) = base_iterator_upper_bound it"
  "base_iterator_lower_bound (it\<lparr>m_equal_keys := e\<rparr>) = base_iterator_lower_bound it"
  "base_iterator_lower_bound (it\<lparr>m_current_at_base := c\<rparr>) = base_iterator_lower_bound it"
  "base_iterator_lower_bound (it\<lparr>m_status := s\<rparr>) = base_iterator_lower_bound it"
  by (simp_all add: ro_upper_def ro_lower_def base_iterator_upper_bound_def
      base_iterator_lower_bound_def split: option.splits)

lemma DeltaValid_flags [simp]:
  "DeltaValid (it\<lparr>m_equal_keys := e\<rparr>) = DeltaValid it"
  "DeltaValid (it\<lparr>m_current_at_base := c\<rparr>) = DeltaValid it"
  "DeltaValid (it\<lparr>m_status := s\<rparr>) = DeltaValid it"
  by (simp_all add: DeltaValid_def DeltaIsWithinBounds_def cong: if_cong)

lemma BaseValid_flags [simp]:
  "BaseValid (it\<lparr>m_equal_keys := e\<rparr>) = BaseValid it"
  "BaseValid (it\<lparr>m_current_at_base := c\<rparr>) = BaseValid it"
  "BaseValid (it\<lparr>m_status := s\<rparr>) = BaseValid it"
  by (simp_all add: BaseValid_def BaseIsWithinBounds_def cong: if_cong)

datatype 'a round = Return 'a | Again 'a

definition UpdateCurrent_round ::
  "('k::linorder, 'v) BaseDeltaIterator \<Rightarrow> ('k, 'v) BaseDeltaIterator round" where
  "UpdateCurrent_round it =
     (if \<not> DeltaValid it \<and> \<not> ok (d_status (m_delta_iterator it))
      then Return (it\<lparr>m_current_at_base := False\<rparr>)
      else
        let it1 = it\<lparr>m_equal_keys := False\<rparr>
        in if \<not> BaseValid it1 then
             (if \<not> ok (b_status (m_base_iterator it1))
                then Return (it1\<lparr>m_current_at_base := True\<rparr>)
              else if \<not> DeltaValid it1 then Return it1
              else if ro_upper it1 \<noteq> None
                      \<and> Compare (we_key (d_Entry (m_delta_iterator it1))) (the (ro_upper it1)) \<ge> 0
                then Return it1
              else if is_tombstone (d_Entry (m_delta_iterator it1))
                then Again (AdvanceDelta it1)
              else Return (it1\<lparr>m_current_at_base := False\<rparr>))
           else if \<not> DeltaValid it1 then Return (it1\<lparr>m_current_at_base := True\<rparr>)
           else
             let compare = (if IsMovingForward it1 then 1 else - 1)
                   * Compare (we_key (d_Entry (m_delta_iterator it1))) (b_key (m_base_iterator it1))
             in if compare \<le> 0 then
                  let it2 = (if compare = 0 then it1\<lparr>m_equal_keys := True\<rparr> else it1)
                  in if \<not> is_tombstone (d_Entry (m_delta_iterator it1))
                     then Return (it2\<lparr>m_current_at_base := False\<rparr>)
                     else
                       let it3 = AdvanceDelta it2
                       in Again (if m_equal_keys it3 then AdvanceBase it3 else it3)
                else Return (it1\<lparr>m_current_at_base := True\<rparr>))"

lemma UpdateCurrent_round_Again:
  assumes "UpdateCurrent_round it = Again n"
  shows "DeltaValid it \<and> is_tombstone (d_Entry (m_delta_iterator it)) \<and>
         (n = AdvanceDelta (it\<lparr>m_equal_keys := False\<rparr>) \<or>
          n = AdvanceBase (AdvanceDelta (it\<lparr>m_equal_keys := True\<rparr>)))"
  using assms
  by (auto simp: UpdateCurrent_round_def Let_def AdvanceDelta_def split: if_splits)

lemma UpdateCurrent_round_rest:
  assumes "UpdateCurrent_round it = Again n"
  shows "delta_rest n < delta_rest it"
proof -
  from UpdateCurrent_round_Again [OF assms]
  have v: "d_Valid (m_delta_iterator it)"
    and n: "n = AdvanceDelta (it\<lparr>m_equal_keys := False\<rparr>) \<or>
            n = AdvanceBase (AdvanceDelta (it\<lparr>m_equal_keys := True\<rparr>))"
    by (simp_all add: DeltaValid_def)
  have "delta_rest (AdvanceDelta (it\<lparr>m_equal_keys := e\<rparr>)) < delta_rest it" for e
    using delta_rest_AdvanceDelta [of "it\<lparr>m_equal_keys := e\<rparr>"] v by simp
  with n show ?thesis by auto
qed

function UpdateCurrent_loop ::
  "('k::linorder, 'v) BaseDeltaIterator \<Rightarrow> ('k, 'v) BaseDeltaIterator" where
  "UpdateCurrent_loop it =
     (case UpdateCurrent_round it of
        Return r \<Rightarrow> r
      | Again n \<Rightarrow> UpdateCurrent_loop n)"
  by pat_completeness auto
termination
  by (relation "measure delta_rest") (simp_all add: UpdateCurrent_round_rest)

declare UpdateCurrent_loop.simps [simp del]

definition UpdateCurrent ::
  "('k::linorder, 'v) BaseDeltaIterator \<Rightarrow> ('k, 'v) BaseDeltaIterator" where
  "UpdateCurrent it = UpdateCurrent_loop (it\<lparr>m_status := OK\<rparr>)"

subsection \<open>Seeks, \<open>Advance\<close>, \<open>Next\<close> and \<open>Prev\<close>\<close>

definition Advance :: "('k::linorder, 'v) BaseDeltaIterator \<Rightarrow> ('k, 'v) BaseDeltaIterator" where
  "Advance it =
     UpdateCurrent
       (if m_equal_keys it then AdvanceDelta (AdvanceBase it)
        else if m_current_at_base it then AdvanceBase it
        else AdvanceDelta it)"

definition SeekToFirst :: "('k::linorder, 'v) BaseDeltaIterator \<Rightarrow> ('k, 'v) BaseDeltaIterator" where
  "SeekToFirst it =
     UpdateCurrent
       (it\<lparr>m_progress := SEEK_TO_FIRST,
           m_base_iterator := b_SeekToFirst (m_base_iterator it),
           m_delta_iterator := d_SeekToFirst (m_delta_iterator it)\<rparr>)"

definition SeekToLast :: "('k::linorder, 'v) BaseDeltaIterator \<Rightarrow> ('k, 'v) BaseDeltaIterator" where
  "SeekToLast it =
     (let it1 = it\<lparr>m_progress := SEEK_TO_LAST\<rparr>;
          base = m_base_iterator it1;
          base1 =
            (case base_iterator_upper_bound it1 of
               Some base_upper_bound \<Rightarrow>
                 if \<not> b_checks_upper base then
                   (let b = b_Seek base_upper_bound base
                    in if b_Valid b then b_Prev b else b_SeekToLast b)
                 else b_SeekToLast base
             | None \<Rightarrow> b_SeekToLast base);
          delta = m_delta_iterator it1;
          delta1 =
            (case ro_upper it1 of
               Some upper \<Rightarrow>
                 (let d = d_Seek upper delta
                  in if d_Valid d then d_Prev d else d_SeekToLast d)
             | None \<Rightarrow> d_SeekToLast delta)
      in UpdateCurrent (it1\<lparr>m_base_iterator := base1, m_delta_iterator := delta1\<rparr>))"

definition Seek :: "'k::linorder \<Rightarrow> ('k, 'v) BaseDeltaIterator \<Rightarrow> ('k, 'v) BaseDeltaIterator" where
  "Seek k it =
     UpdateCurrent
       (it\<lparr>m_progress := SEEK,
           m_base_iterator := b_Seek k (m_base_iterator it),
           m_delta_iterator := d_Seek k (m_delta_iterator it)\<rparr>)"

definition SeekForPrev ::
  "'k::linorder \<Rightarrow> ('k, 'v) BaseDeltaIterator \<Rightarrow> ('k, 'v) BaseDeltaIterator" where
  "SeekForPrev k it =
     UpdateCurrent
       (it\<lparr>m_progress := SEEK_FOR_PREV,
           m_base_iterator := b_SeekForPrev k (m_base_iterator it),
           m_delta_iterator := d_SeekForPrev k (m_delta_iterator it)\<rparr>)"

text \<open>The keys of both sides are compared only where both sides are valid.\<close>

definition keys_Equal :: "('k::linorder, 'v) BaseDeltaIterator \<Rightarrow> bool" where
  "keys_Equal it =
     (DeltaValid it \<and> BaseValid it \<and>
      Equal (we_key (d_Entry (m_delta_iterator it))) (b_key (m_base_iterator it)))"

definition Next :: "('k::linorder, 'v) BaseDeltaIterator \<Rightarrow> ('k, 'v) BaseDeltaIterator" where
  "Next it =
     (if \<not> Valid it then it\<lparr>m_status := NotSupported ''Next() on invalid iterator''\<rparr>
      else
        let it1 =
          (if IsMovingBackward it then
             let a = it\<lparr>m_equal_keys := False\<rparr>
             in if \<not> BaseValid a then
                  (if m_progress a \<noteq> SEEK_TO_LAST
                   then a\<lparr>m_base_iterator := b_SeekToFirst (m_base_iterator a)\<rparr> else a)
                else if \<not> DeltaValid a then
                  (if m_progress a \<noteq> SEEK_TO_LAST
                   then a\<lparr>m_delta_iterator := d_SeekToFirst (m_delta_iterator a)\<rparr> else a)
                else
                  let b = a\<lparr>m_progress := FORWARD\<rparr>;
                      c = (if m_current_at_base b then AdvanceDelta b else AdvanceBase b)
                  in if keys_Equal c then c\<lparr>m_equal_keys := True\<rparr> else c
           else it)
        in Advance (it1\<lparr>m_progress := FORWARD\<rparr>))"

definition Prev :: "('k::linorder, 'v) BaseDeltaIterator \<Rightarrow> ('k, 'v) BaseDeltaIterator" where
  "Prev it =
     (if \<not> Valid it then it\<lparr>m_status := NotSupported ''Prev() on invalid iterator''\<rparr>
      else
        let it1 =
          (if IsMovingForward it then
             let a = it\<lparr>m_equal_keys := False\<rparr>;
                 b = (if \<not> BaseValid a then
                        (if m_progress a \<noteq> SEEK_TO_FIRST
                         then a\<lparr>m_base_iterator := b_SeekToLast (m_base_iterator a)\<rparr> else a)
                      else if \<not> DeltaValid a then
                        (if m_progress a \<noteq> SEEK_TO_FIRST
                         then a\<lparr>m_delta_iterator := d_SeekToLast (m_delta_iterator a)\<rparr> else a)
                      else
                        let c = a\<lparr>m_progress := BACKWARD\<rparr>
                        in if m_current_at_base c then AdvanceDelta c else AdvanceBase c)
             in if keys_Equal b then b\<lparr>m_equal_keys := True\<rparr> else b
           else it)
        in Advance (it1\<lparr>m_progress := BACKWARD\<rparr>))"

subsection \<open>Sequences of operations\<close>

datatype 'k Op = OpSeekToFirst | OpSeekToLast | OpSeek 'k | OpSeekForPrev 'k | OpNext | OpPrev

fun apply_op :: "'k::linorder Op \<Rightarrow> ('k, 'v) BaseDeltaIterator \<Rightarrow> ('k, 'v) BaseDeltaIterator" where
  "apply_op OpSeekToFirst it = SeekToFirst it"
| "apply_op OpSeekToLast it = SeekToLast it"
| "apply_op (OpSeek k) it = Seek k it"
| "apply_op (OpSeekForPrev k) it = SeekForPrev k it"
| "apply_op OpNext it = Next it"
| "apply_op OpPrev it = Prev it"

fun is_seek :: "'k Op \<Rightarrow> bool" where
  "is_seek OpNext = False"
| "is_seek OpPrev = False"
| "is_seek _ = True"

fun run_ops :: "'k::linorder Op list \<Rightarrow> ('k, 'v) BaseDeltaIterator \<Rightarrow> ('k, 'v) BaseDeltaIterator" where
  "run_ops [] it = it"
| "run_ops (opr # oprs) it = run_ops oprs (apply_op opr it)"

text \<open>What \<open>status()\<close> reports when the iterator's own \<open>status_\<close> is ok.\<close>

definition sub_status :: "('k, 'v) BaseDeltaIterator \<Rightarrow> Status" where
  "sub_status it =
     (if \<not> ok (b_status (m_base_iterator it)) then b_status (m_base_iterator it)
      else d_status (m_delta_iterator it))"

section \<open>What \<open>UpdateCurrent\<close> keeps and what it establishes\<close>

lemma UpdateCurrent_round_keeps:
  assumes "UpdateCurrent_round it = Return r \<or> UpdateCurrent_round it = Again r"
  shows "m_status r = m_status it \<and> m_progress r = m_progress it
         \<and> m_read_options r = m_read_options it \<and> sub_status r = sub_status it"
  using assms
  by (auto simp: UpdateCurrent_round_def Let_def AdvanceDelta_def AdvanceBase_def
      sub_status_def b_Next_def b_Prev_def d_Next_def d_Prev_def split: if_splits)

lemma UpdateCurrent_loop_keeps:
  "m_status (UpdateCurrent_loop it) = m_status it \<and>
   m_progress (UpdateCurrent_loop it) = m_progress it \<and>
   m_read_options (UpdateCurrent_loop it) = m_read_options it \<and>
   sub_status (UpdateCurrent_loop it) = sub_status it"
proof (induction it rule: UpdateCurrent_loop.induct)
  case (1 it)
  show ?case
  proof (cases "UpdateCurrent_round it")
    case (Return r)
    then show ?thesis
      using UpdateCurrent_round_keeps [of it r] by (simp add: UpdateCurrent_loop.simps [of it])
  next
    case (Again n)
    then show ?thesis
      using UpdateCurrent_round_keeps [of it n] 1 [OF Again]
      by (simp add: UpdateCurrent_loop.simps [of it])
  qed
qed

lemma UpdateCurrent_status [simp]: "m_status (UpdateCurrent it) = OK"
  by (simp add: UpdateCurrent_def UpdateCurrent_loop_keeps)

lemma UpdateCurrent_progress [simp]: "m_progress (UpdateCurrent it) = m_progress it"
  by (simp add: UpdateCurrent_def UpdateCurrent_loop_keeps)

lemma sub_status_m_status [simp]: "sub_status (it\<lparr>m_status := s\<rparr>) = sub_status it"
  by (simp add: sub_status_def)

lemma UpdateCurrent_sub_status [simp]: "sub_status (UpdateCurrent it) = sub_status it"
  by (simp add: UpdateCurrent_def UpdateCurrent_loop_keeps)

lemma status_when_ok: "m_status it = OK \<Longrightarrow> status it = sub_status it"
  by (simp add: status_def sub_status_def ok_def)

lemma b_status_moves [simp]:
  "b_status (b_SeekToFirst b) = b_status b" "b_status (b_SeekToLast b) = b_status b"
  "b_status (b_Seek k b) = b_status b" "b_status (b_SeekForPrev k b) = b_status b"
  "b_status (b_Next b) = b_status b" "b_status (b_Prev b) = b_status b"
  by (simp_all add: b_SeekToFirst_def b_SeekToLast_def b_Seek_def b_SeekForPrev_def
      b_Next_def b_Prev_def)

lemma d_status_moves [simp]:
  "d_status (d_SeekToFirst d) = d_status d" "d_status (d_SeekToLast d) = d_status d"
  "d_status (d_Seek k d) = d_status d" "d_status (d_SeekForPrev k d) = d_status d"
  "d_status (d_Next d) = d_status d" "d_status (d_Prev d) = d_status d"
  by (simp_all add: d_SeekToFirst_def d_SeekToLast_def d_Seek_def d_SeekForPrev_def
      d_Next_def d_Prev_def)

lemma sub_status_moved:
  "b_status b = b_status (m_base_iterator it) \<Longrightarrow> d_status d = d_status (m_delta_iterator it)
   \<Longrightarrow> sub_status (it\<lparr>m_progress := p, m_base_iterator := b, m_delta_iterator := d\<rparr>)
       = sub_status it"
  by (simp add: sub_status_def)

lemma seek_sub_status:
  "is_seek opr \<Longrightarrow> sub_status (apply_op opr it) = sub_status it"
proof (cases opr)
  case OpSeekToLast
  show ?thesis
    unfolding OpSeekToLast apply_op.simps SeekToLast_def Let_def UpdateCurrent_sub_status
    by (simp add: sub_status_def split: option.splits)
qed (simp_all add: SeekToFirst_def Seek_def SeekForPrev_def sub_status_moved)

lemma seek_m_status: "is_seek opr \<Longrightarrow> m_status (apply_op opr it) = OK"
  by (cases opr) (simp_all add: SeekToFirst_def SeekToLast_def Seek_def SeekForPrev_def Let_def)

text \<open>
  The ordering of the two sides that the spec states for a position where both sides are
  valid, with the comparator's \<open>Compare\<close> and \<open>Equal\<close>.
\<close>

definition ordering_inv :: "('k::linorder, 'v) BaseDeltaIterator \<Rightarrow> bool" where
  "ordering_inv it =
     (let b = b_key (m_base_iterator it); d = we_key (d_Entry (m_delta_iterator it))
      in (if IsMovingForward it
          then (if m_current_at_base it then Compare b d \<le> 0 else Compare d b \<le> 0)
          else (if m_current_at_base it then Compare d b \<le> 0 else Compare b d \<le> 0))
         \<and> m_equal_keys it = Equal b d)"

lemma UpdateCurrent_round_inv:
  assumes "UpdateCurrent_round it = Return r" "BaseValid r" "DeltaValid r"
  shows "ordering_inv r"
  using assms
  by (auto simp: UpdateCurrent_round_def Let_def ordering_inv_def Compare_def Equal_def
      split: if_splits)

lemma UpdateCurrent_loop_inv:
  "BaseValid (UpdateCurrent_loop it) \<Longrightarrow> DeltaValid (UpdateCurrent_loop it)
   \<Longrightarrow> ordering_inv (UpdateCurrent_loop it)"
proof (induction it rule: UpdateCurrent_loop.induct)
  case (1 it)
  show ?case
  proof (cases "UpdateCurrent_round it")
    case (Return r)
    then show ?thesis
      using UpdateCurrent_round_inv [of it r] 1(2,3)
      by (simp add: UpdateCurrent_loop.simps [of it])
  next
    case (Again n)
    then show ?thesis
      using 1 by (simp add: UpdateCurrent_loop.simps [of it])
  qed
qed

lemma Valid_m_status: "Valid it \<Longrightarrow> m_status it = OK"
  by (simp add: Valid_def ok_def split: if_splits)

lemma Next_invalid:
  "\<not> Valid it \<Longrightarrow> Next it = it\<lparr>m_status := NotSupported ''Next() on invalid iterator''\<rparr>"
  by (simp add: Next_def)

lemma Prev_invalid:
  "\<not> Valid it \<Longrightarrow> Prev it = it\<lparr>m_status := NotSupported ''Prev() on invalid iterator''\<rparr>"
  by (simp add: Prev_def)

lemma Next_valid: "Valid it \<Longrightarrow> \<exists>x. Next it = UpdateCurrent x"
  unfolding Next_def Advance_def Let_def
  by (simp only: simp_thms if_False) (rule exI, rule refl)

lemma Prev_valid: "Valid it \<Longrightarrow> \<exists>x. Prev it = UpdateCurrent x"
  unfolding Prev_def Advance_def Let_def
  by (simp only: simp_thms if_False) (rule exI, rule refl)

lemma not_Valid_NotSupported [simp]: "\<not> Valid (it\<lparr>m_status := NotSupported m\<rparr>)"
  by (simp add: Valid_def ok_def)

lemma seek_is_UpdateCurrent: "is_seek opr \<Longrightarrow> \<exists>x. apply_op opr it = UpdateCurrent x"
  by (cases opr) (auto simp: SeekToFirst_def SeekToLast_def Seek_def SeekForPrev_def Let_def)

lemma apply_op_is_UpdateCurrent:
  assumes "Valid (apply_op opr it)"
  shows "\<exists>x. apply_op opr it = UpdateCurrent x"
proof (cases "is_seek opr")
  case True
  then show ?thesis by (rule seek_is_UpdateCurrent)
next
  case False
  then have o: "opr = OpNext \<or> opr = OpPrev" by (cases opr) simp_all
  have "Valid it"
  proof (rule ccontr)
    assume "\<not> Valid it"
    with o assms show False by (auto simp: Next_invalid Prev_invalid)
  qed
  with o show ?thesis using Next_valid [of it] Prev_valid [of it] by auto
qed

section \<open>A forward scan\<close>

text \<open>
  A scan reads the current entry and calls \<open>Next\<close> as long as the iterator is valid. It
  ends: \<open>Next\<close> on a valid iterator leaves the iterator moving forward, and from then on
  every \<open>Next\<close> moves at least one of the two cursors towards the end of its list.
\<close>

definition cur_size :: "'a list \<Rightarrow> cursor \<Rightarrow> nat" where
  "cur_size xs c = (case c of None \<Rightarrow> 0 | Some i \<Rightarrow> length xs - i)"

definition fwd_size :: "('k, 'v) BaseDeltaIterator \<Rightarrow> nat" where
  "fwd_size it =
     cur_size (b_items (m_base_iterator it)) (b_pos (m_base_iterator it))
     + cur_size (d_items (m_delta_iterator it)) (d_pos (m_delta_iterator it))"

lemma cur_size_next_le: "cur_size xs (cur_next xs c) \<le> cur_size xs c"
  by (auto simp: cur_size_def cur_next_def split: option.splits)

lemma cur_size_next_less: "cur_valid xs c \<Longrightarrow> cur_size xs (cur_next xs c) < cur_size xs c"
  by (auto simp: cur_size_def cur_next_def cur_valid_def split: option.splits)

lemma not_backward [simp]: "IsMovingBackward it = (\<not> IsMovingForward it)"
  by (cases "m_progress it") (simp_all add: IsMovingBackward_def IsMovingForward_def)

lemma forward_FORWARD [simp]: "IsMovingForward (it\<lparr>m_progress := FORWARD\<rparr>)"
  by (simp add: IsMovingForward_def)

lemma forward_Advance [simp]:
  "IsMovingForward (AdvanceBase it) = IsMovingForward it"
  "IsMovingForward (AdvanceDelta it) = IsMovingForward it"
  by (simp_all add: IsMovingForward_def AdvanceBase_def AdvanceDelta_def)

lemma fwd_size_flags [simp]:
  "fwd_size (it\<lparr>m_equal_keys := e\<rparr>) = fwd_size it"
  "fwd_size (it\<lparr>m_current_at_base := c\<rparr>) = fwd_size it"
  "fwd_size (it\<lparr>m_status := s\<rparr>) = fwd_size it"
  "fwd_size (it\<lparr>m_progress := p\<rparr>) = fwd_size it"
  by (simp_all add: fwd_size_def)

lemma fwd_size_AdvanceBase_le:
  "IsMovingForward it \<Longrightarrow> fwd_size (AdvanceBase it) \<le> fwd_size it"
  by (simp add: fwd_size_def AdvanceBase_def b_Next_def cur_size_next_le)

lemma fwd_size_AdvanceDelta_le:
  "IsMovingForward it \<Longrightarrow> fwd_size (AdvanceDelta it) \<le> fwd_size it"
  by (simp add: fwd_size_def AdvanceDelta_def d_Next_def cur_size_next_le)

lemma fwd_size_AdvanceBase_less:
  "IsMovingForward it \<Longrightarrow> b_Valid (m_base_iterator it)
   \<Longrightarrow> fwd_size (AdvanceBase it) < fwd_size it"
  by (simp add: fwd_size_def AdvanceBase_def b_Next_def b_Valid_def cur_size_next_less)

lemma fwd_size_AdvanceDelta_less:
  "IsMovingForward it \<Longrightarrow> d_Valid (m_delta_iterator it)
   \<Longrightarrow> fwd_size (AdvanceDelta it) < fwd_size it"
  by (simp add: fwd_size_def AdvanceDelta_def d_Next_def d_Valid_def cur_size_next_less)

lemma UpdateCurrent_round_forward:
  assumes "UpdateCurrent_round it = Return r \<or> UpdateCurrent_round it = Again r"
  shows "IsMovingForward r = IsMovingForward it"
  using UpdateCurrent_round_keeps [OF assms] by (simp add: IsMovingForward_def)

lemma UpdateCurrent_round_fwd_size:
  assumes "IsMovingForward it"
    and "UpdateCurrent_round it = Return r \<or> UpdateCurrent_round it = Again r"
  shows "fwd_size r \<le> fwd_size it"
proof -
  have a: "fwd_size (AdvanceDelta (it\<lparr>m_equal_keys := e\<rparr>)) \<le> fwd_size it" for e
    using fwd_size_AdvanceDelta_le [of "it\<lparr>m_equal_keys := e\<rparr>"] assms(1) by simp
  have b: "fwd_size (AdvanceBase (AdvanceDelta (it\<lparr>m_equal_keys := e\<rparr>))) \<le> fwd_size it" for e
    using fwd_size_AdvanceBase_le [of "AdvanceDelta (it\<lparr>m_equal_keys := e\<rparr>)"] a [of e] assms(1)
    by simp
  from assms(2) show ?thesis
  proof
    assume "UpdateCurrent_round it = Return r"
    then show ?thesis
      by (auto simp: UpdateCurrent_round_def Let_def split: if_splits)
  next
    assume "UpdateCurrent_round it = Again r"
    from UpdateCurrent_round_Again [OF this] a b show ?thesis by auto
  qed
qed

lemma UpdateCurrent_loop_fwd_size:
  "IsMovingForward it \<Longrightarrow> fwd_size (UpdateCurrent_loop it) \<le> fwd_size it"
proof (induction it rule: UpdateCurrent_loop.induct)
  case (1 it)
  show ?case
  proof (cases "UpdateCurrent_round it")
    case (Return r)
    then show ?thesis
      using UpdateCurrent_round_fwd_size [OF 1(2), of r]
      by (simp add: UpdateCurrent_loop.simps [of it])
  next
    case (Again n)
    have "IsMovingForward n" using UpdateCurrent_round_forward [of it n] Again 1(2) by simp
    from 1(1) [OF Again this] UpdateCurrent_round_fwd_size [OF 1(2), of n] Again
    show ?thesis by (simp add: UpdateCurrent_loop.simps [of it])
  qed
qed

text \<open>The cursor moves of \<open>Advance\<close>, before its \<open>UpdateCurrent\<close>.\<close>

definition Advance_moves :: "('k, 'v) BaseDeltaIterator \<Rightarrow> ('k, 'v) BaseDeltaIterator" where
  "Advance_moves it =
     (if m_equal_keys it then AdvanceDelta (AdvanceBase it)
      else if m_current_at_base it then AdvanceBase it
      else AdvanceDelta it)"

lemma Next_forward:
  "Valid it \<Longrightarrow> IsMovingForward it
   \<Longrightarrow> Next it = UpdateCurrent (Advance_moves (it\<lparr>m_progress := FORWARD\<rparr>))"
  by (simp add: Next_def Advance_def Advance_moves_def)

lemma Next_moves_forward: "Valid it \<Longrightarrow> IsMovingForward (Next it)"
proof -
  assume "Valid it"
  then have "m_progress (Next it) = FORWARD"
    by (simp add: Next_def Advance_def Let_def AdvanceBase_def AdvanceDelta_def)
  then show ?thesis by (simp add: IsMovingForward_def)
qed

lemma Valid_current_side:
  "Valid it \<Longrightarrow> (if m_current_at_base it then b_Valid (m_base_iterator it)
                   else d_Valid (m_delta_iterator it))"
  by (simp add: Valid_def BaseValid_def DeltaValid_def split: if_splits)

lemma Advance_moves_fwd_size:
  assumes "Valid it" and "IsMovingForward it"
  shows "fwd_size (Advance_moves it) < fwd_size it"
proof -
  note v = Valid_current_side [OF assms(1)]
  show ?thesis
  proof (cases "m_current_at_base it")
    case True
    with v have b: "b_Valid (m_base_iterator it)" by simp
    have "fwd_size (AdvanceDelta (AdvanceBase it)) \<le> fwd_size (AdvanceBase it)"
      using fwd_size_AdvanceDelta_le [of "AdvanceBase it"] assms(2) by simp
    with fwd_size_AdvanceBase_less [OF assms(2) b] True show ?thesis
      by (simp add: Advance_moves_def)
  next
    case False
    with v have d: "d_Valid (m_delta_iterator it)" by simp
    have "d_Valid (m_delta_iterator (AdvanceBase it))"
      using d by (simp add: AdvanceBase_def)
    then have "fwd_size (AdvanceDelta (AdvanceBase it)) < fwd_size (AdvanceBase it)"
      using fwd_size_AdvanceDelta_less [of "AdvanceBase it"] assms(2) by simp
    with fwd_size_AdvanceBase_le [OF assms(2)] fwd_size_AdvanceDelta_less [OF assms(2) d] False
    show ?thesis by (auto simp: Advance_moves_def)
  qed
qed

lemma bounds_progress [simp]:
  "ro_upper (it\<lparr>m_progress := p\<rparr>) = ro_upper it"
  "ro_lower (it\<lparr>m_progress := p\<rparr>) = ro_lower it"
  "base_iterator_upper_bound (it\<lparr>m_progress := p\<rparr>) = base_iterator_upper_bound it"
  "base_iterator_lower_bound (it\<lparr>m_progress := p\<rparr>) = base_iterator_lower_bound it"
  by (simp_all add: ro_upper_def ro_lower_def base_iterator_upper_bound_def
      base_iterator_lower_bound_def split: option.splits)

lemma Valid_sides_progress [simp]:
  assumes "IsMovingForward it"
  shows "BaseValid (it\<lparr>m_progress := FORWARD\<rparr>) = BaseValid it"
    and "DeltaValid (it\<lparr>m_progress := FORWARD\<rparr>) = DeltaValid it"
  using assms
  by (simp_all add: BaseValid_def DeltaValid_def BaseIsWithinBounds_def
      DeltaIsWithinBounds_def cong: if_cong)

lemma Valid_progress [simp]:
  "IsMovingForward it \<Longrightarrow> Valid (it\<lparr>m_progress := FORWARD\<rparr>) = Valid it"
  by (simp add: Valid_def)

lemma Next_fwd_size:
  assumes "Valid it" and "IsMovingForward it"
  shows "fwd_size (Next it) < fwd_size it"
proof -
  let ?x = "it\<lparr>m_progress := FORWARD\<rparr>"
  have "fwd_size (Advance_moves ?x) < fwd_size ?x"
    using Advance_moves_fwd_size [of ?x] assms by simp
  moreover have "IsMovingForward ((Advance_moves ?x)\<lparr>m_status := OK\<rparr>)"
    by (simp add: Advance_moves_def)
  from UpdateCurrent_loop_fwd_size [OF this]
  have "fwd_size (UpdateCurrent (Advance_moves ?x)) \<le> fwd_size (Advance_moves ?x)"
    by (simp add: UpdateCurrent_def)
  ultimately show ?thesis by (simp add: Next_forward [OF assms])
qed

function scan :: "('k::linorder, 'v) BaseDeltaIterator \<Rightarrow> ('k \<times> 'v) list" where
  "scan it = (if Valid it then (key it, val it) # scan (Next it) else [])"
  by pat_completeness auto
termination
proof (relation "measures [\<lambda>it. if IsMovingForward it then 0 else 1, fwd_size]")
  show "wf (measures [\<lambda>it :: ('k::linorder, 'v) BaseDeltaIterator.
                        if IsMovingForward it then 0 else 1, fwd_size])"
    by simp
next
  fix it :: "('k::linorder, 'v) BaseDeltaIterator"
  assume v: "Valid it"
  show "(Next it, it) \<in> measures [\<lambda>it. if IsMovingForward it then 0 else 1, fwd_size]"
    using Next_moves_forward [OF v] Next_fwd_size [OF v] by simp
qed

declare scan.simps [simp del]

definition forward_scan :: "('k::linorder, 'v) BaseDeltaIterator \<Rightarrow> ('k \<times> 'v) list" where
  "forward_scan it = scan (SeekToFirst it)"

section \<open>The forward scan as a merge of the two lists\<close>

text \<open>
  What a forward-moving iterator still has before it: on each side the entries from the
  cursor on, up to the first entry that is not below the upper bound of that side.
\<close>

definition cur_rest :: "'a list \<Rightarrow> cursor \<Rightarrow> 'a list" where
  "cur_rest xs c = (case c of None \<Rightarrow> [] | Some i \<Rightarrow> drop i xs)"

definition base_below_upper :: "('k::linorder, 'v) BaseDeltaIterator \<Rightarrow> 'k \<Rightarrow> bool" where
  "base_below_upper it k =
     (b_checks_upper (m_base_iterator it) \<or>
      (case base_iterator_upper_bound it of None \<Rightarrow> True | Some u \<Rightarrow> k < u))"

definition delta_below_upper :: "('k::linorder, 'v) BaseDeltaIterator \<Rightarrow> 'k \<Rightarrow> bool" where
  "delta_below_upper it k = (case ro_upper it of None \<Rightarrow> True | Some u \<Rightarrow> k < u)"

definition base_window :: "('k::linorder, 'v) BaseDeltaIterator \<Rightarrow> ('k \<times> 'v) list" where
  "base_window it =
     takeWhile (\<lambda>x. base_below_upper it (fst x))
       (cur_rest (b_items (m_base_iterator it)) (b_pos (m_base_iterator it)))"

definition delta_window :: "('k::linorder, 'v) BaseDeltaIterator \<Rightarrow> ('k, 'v) WriteEntry list" where
  "delta_window it =
     takeWhile (\<lambda>e. delta_below_upper it (we_key e))
       (cur_rest (d_items (m_delta_iterator it)) (d_pos (m_delta_iterator it)))"

text \<open>
  The merged view of the spec: the entries of both lists in key order, where a delta
  record takes the place of the base entry with the same key, and a \<open>Delete\<close> or
  \<open>SingleDelete\<close> record of the delta is left out together with that base entry.
\<close>

fun merge_fwd :: "('k::linorder \<times> 'v) list \<Rightarrow> ('k, 'v) WriteEntry list \<Rightarrow> ('k \<times> 'v) list" where
  "merge_fwd [] [] = []"
| "merge_fwd [] (d # ds) =
     (if is_tombstone d then merge_fwd [] ds else (we_key d, we_value d) # merge_fwd [] ds)"
| "merge_fwd (b # bs) [] = b # merge_fwd bs []"
| "merge_fwd (b # bs) (d # ds) =
     (if we_key d < fst b then
        (if is_tombstone d then merge_fwd (b # bs) ds
         else (we_key d, we_value d) # merge_fwd (b # bs) ds)
      else if we_key d = fst b then
        (if is_tombstone d then merge_fwd bs ds
         else (we_key d, we_value d) # merge_fwd bs ds)
      else b # merge_fwd bs (d # ds))"

lemma cur_rest_valid: "cur_valid xs c = (cur_rest xs c \<noteq> [])"
  by (auto simp: cur_valid_def cur_rest_def split: option.splits)

lemma cur_rest_hd: "cur_valid xs c \<Longrightarrow> xs ! the c = hd (cur_rest xs c)"
  by (auto simp: cur_valid_def cur_rest_def hd_drop_conv_nth split: option.splits)

lemma cur_rest_next: "cur_rest xs (cur_next xs c) = tl (cur_rest xs c)"
  by (auto simp: cur_rest_def cur_next_def drop_Suc tl_drop split: option.splits)

lemma takeWhile_tl: "xs \<noteq> [] \<Longrightarrow> P (hd xs) \<Longrightarrow> takeWhile P (tl xs) = tl (takeWhile P xs)"
  by (cases xs) simp_all

lemma takeWhile_nonempty: "(takeWhile P xs \<noteq> []) = (xs \<noteq> [] \<and> P (hd xs))"
  by (cases xs) simp_all

lemma takeWhile_hd: "takeWhile P xs \<noteq> [] \<Longrightarrow> hd (takeWhile P xs) = hd xs"
  by (cases xs) (simp_all split: if_splits)

lemma window_flags [simp]:
  "base_window (it\<lparr>m_equal_keys := e\<rparr>) = base_window it"
  "base_window (it\<lparr>m_current_at_base := c\<rparr>) = base_window it"
  "base_window (it\<lparr>m_status := s\<rparr>) = base_window it"
  "base_window (it\<lparr>m_progress := p\<rparr>) = base_window it"
  "delta_window (it\<lparr>m_equal_keys := e\<rparr>) = delta_window it"
  "delta_window (it\<lparr>m_current_at_base := c\<rparr>) = delta_window it"
  "delta_window (it\<lparr>m_status := s\<rparr>) = delta_window it"
  "delta_window (it\<lparr>m_progress := p\<rparr>) = delta_window it"
  by (simp_all add: base_window_def delta_window_def base_below_upper_def
      delta_below_upper_def)

lemma BaseValid_window:
  assumes "IsMovingForward it"
  shows "BaseValid it = (base_window it \<noteq> [])"
proof (cases "b_Valid (m_base_iterator it)")
  case False
  then show ?thesis
    by (simp add: BaseValid_def base_window_def takeWhile_nonempty b_Valid_def cur_rest_valid)
next
  case True
  then have r: "cur_rest (b_items (m_base_iterator it)) (b_pos (m_base_iterator it)) \<noteq> []"
    by (simp add: b_Valid_def cur_rest_valid)
  have k: "b_key (m_base_iterator it)
      = fst (hd (cur_rest (b_items (m_base_iterator it)) (b_pos (m_base_iterator it))))"
    using True by (simp add: b_key_def b_Valid_def cur_rest_hd)
  show ?thesis
    using True r assms k
    by (auto simp: BaseValid_def base_window_def takeWhile_nonempty BaseIsWithinBounds_def
        base_below_upper_def Compare_def split: option.splits if_splits)
qed

lemma DeltaValid_window:
  assumes "IsMovingForward it"
  shows "DeltaValid it = (delta_window it \<noteq> [])"
proof (cases "d_Valid (m_delta_iterator it)")
  case False
  then show ?thesis
    by (simp add: DeltaValid_def delta_window_def takeWhile_nonempty d_Valid_def cur_rest_valid)
next
  case True
  then have r: "cur_rest (d_items (m_delta_iterator it)) (d_pos (m_delta_iterator it)) \<noteq> []"
    by (simp add: d_Valid_def cur_rest_valid)
  have k: "d_Entry (m_delta_iterator it)
      = hd (cur_rest (d_items (m_delta_iterator it)) (d_pos (m_delta_iterator it)))"
    using True by (simp add: d_Entry_def d_Valid_def cur_rest_hd)
  show ?thesis
    using True r assms k
    by (auto simp: DeltaValid_def delta_window_def takeWhile_nonempty DeltaIsWithinBounds_def
        delta_below_upper_def Compare_def split: option.splits if_splits)
qed

lemma base_window_hd:
  assumes "base_window it = b # bs"
  shows "b_key (m_base_iterator it) = fst b" and "b_value (m_base_iterator it) = snd b"
proof -
  from assms have n: "base_window it \<noteq> []" by simp
  then have r: "cur_rest (b_items (m_base_iterator it)) (b_pos (m_base_iterator it)) \<noteq> []"
    by (auto simp: base_window_def)
  then have v: "cur_valid (b_items (m_base_iterator it)) (b_pos (m_base_iterator it))"
    by (simp add: cur_rest_valid)
  have "hd (base_window it)
      = hd (cur_rest (b_items (m_base_iterator it)) (b_pos (m_base_iterator it)))"
    using n unfolding base_window_def by (rule takeWhile_hd)
  with assms cur_rest_hd [OF v]
  show "b_key (m_base_iterator it) = fst b" and "b_value (m_base_iterator it) = snd b"
    by (simp_all add: b_key_def b_value_def)
qed

lemma delta_window_hd:
  assumes "delta_window it = d # ds"
  shows "d_Entry (m_delta_iterator it) = d"
proof -
  from assms have n: "delta_window it \<noteq> []" by simp
  then have r: "cur_rest (d_items (m_delta_iterator it)) (d_pos (m_delta_iterator it)) \<noteq> []"
    by (auto simp: delta_window_def)
  then have v: "cur_valid (d_items (m_delta_iterator it)) (d_pos (m_delta_iterator it))"
    by (simp add: cur_rest_valid)
  have "hd (delta_window it)
      = hd (cur_rest (d_items (m_delta_iterator it)) (d_pos (m_delta_iterator it)))"
    using n unfolding delta_window_def by (rule takeWhile_hd)
  with assms cur_rest_hd [OF v] show ?thesis by (simp add: d_Entry_def)
qed

lemma Advance_other_side [simp]:
  "m_delta_iterator (AdvanceBase it) = m_delta_iterator it"
  "m_base_iterator (AdvanceDelta it) = m_base_iterator it"
  "m_read_options (AdvanceBase it) = m_read_options it"
  "m_read_options (AdvanceDelta it) = m_read_options it"
  by (simp_all add: AdvanceBase_def AdvanceDelta_def)

lemma below_upper_Advance [simp]:
  "base_below_upper (AdvanceBase it) = base_below_upper it"
  "base_below_upper (AdvanceDelta it) = base_below_upper it"
  "delta_below_upper (AdvanceBase it) = delta_below_upper it"
  "delta_below_upper (AdvanceDelta it) = delta_below_upper it"
  by (simp_all add: base_below_upper_def delta_below_upper_def fun_eq_iff
      base_iterator_upper_bound_def ro_upper_def AdvanceBase_def AdvanceDelta_def
      b_Next_def b_Prev_def split: option.splits)

lemma window_AdvanceBase:
  assumes "IsMovingForward it"
  shows "delta_window (AdvanceBase it) = delta_window it"
    and "base_window it \<noteq> [] \<Longrightarrow> base_window (AdvanceBase it) = tl (base_window it)"
proof -
  show "delta_window (AdvanceBase it) = delta_window it"
    by (simp add: delta_window_def)
  assume n: "base_window it \<noteq> []"
  then show "base_window (AdvanceBase it) = tl (base_window it)"
    unfolding base_window_def below_upper_Advance
    using assms
    by (simp add: AdvanceBase_def b_Next_def cur_rest_next takeWhile_tl takeWhile_nonempty)
qed

lemma window_AdvanceDelta:
  assumes "IsMovingForward it"
  shows "base_window (AdvanceDelta it) = base_window it"
    and "delta_window it \<noteq> [] \<Longrightarrow> delta_window (AdvanceDelta it) = tl (delta_window it)"
proof -
  show "base_window (AdvanceDelta it) = base_window it"
    by (simp add: base_window_def)
  assume n: "delta_window it \<noteq> []"
  then show "delta_window (AdvanceDelta it) = tl (delta_window it)"
    unfolding delta_window_def below_upper_Advance
    using assms
    by (simp add: AdvanceDelta_def d_Next_def cur_rest_next takeWhile_tl takeWhile_nonempty)
qed

text \<open>
  A state from which the scan is followed: moving forward, with \<open>status_\<close> and the status
  of both sub-iterators ok.
\<close>

definition scan_ready :: "('k, 'v) BaseDeltaIterator \<Rightarrow> bool" where
  "scan_ready x =
     (IsMovingForward x \<and> m_status x = OK \<and> b_status (m_base_iterator x) = OK
      \<and> d_status (m_delta_iterator x) = OK)"

lemma Advance_flags [simp]:
  "m_equal_keys (AdvanceBase it) = m_equal_keys it"
  "m_equal_keys (AdvanceDelta it) = m_equal_keys it"
  "m_current_at_base (AdvanceBase it) = m_current_at_base it"
  "m_current_at_base (AdvanceDelta it) = m_current_at_base it"
  "m_status (AdvanceBase it) = m_status it"
  "m_status (AdvanceDelta it) = m_status it"
  "b_status (m_base_iterator (AdvanceBase it)) = b_status (m_base_iterator it)"
  "d_status (m_delta_iterator (AdvanceDelta it)) = d_status (m_delta_iterator it)"
  by (simp_all add: AdvanceBase_def AdvanceDelta_def b_Next_def b_Prev_def d_Next_def
      d_Prev_def)

lemma scan_ready_keeps [simp]:
  "scan_ready (AdvanceBase x) = scan_ready x"
  "scan_ready (AdvanceDelta x) = scan_ready x"
  "scan_ready (x\<lparr>m_equal_keys := e\<rparr>) = scan_ready x"
  "scan_ready (x\<lparr>m_current_at_base := c\<rparr>) = scan_ready x"
  by (simp_all add: scan_ready_def)

lemma scan_ready_restart:
  "scan_ready x \<Longrightarrow> scan_ready (x\<lparr>m_progress := FORWARD, m_status := OK\<rparr>)"
  by (simp add: scan_ready_def)

lemma round_both_empty:
  assumes "scan_ready x" and "base_window x = []" and "delta_window x = []"
  shows "UpdateCurrent_round x = Return (x\<lparr>m_equal_keys := False\<rparr>)"
  using assms
  by (simp add: UpdateCurrent_round_def scan_ready_def BaseValid_window DeltaValid_window ok_def
      Let_def)

lemma forward_delta_below_upper:
  assumes "IsMovingForward x" and "DeltaValid x"
  shows "\<not> (ro_upper x \<noteq> None
            \<and> Compare (we_key (d_Entry (m_delta_iterator x))) (the (ro_upper x)) \<ge> 0)"
  using assms by (auto simp: DeltaValid_def DeltaIsWithinBounds_def split: if_splits)

lemma round_base_empty:
  assumes "scan_ready x" and "base_window x = []" and "delta_window x = d # ds"
  shows "UpdateCurrent_round x =
           (if is_tombstone d then Again (AdvanceDelta (x\<lparr>m_equal_keys := False\<rparr>))
            else Return (x\<lparr>m_equal_keys := False, m_current_at_base := False\<rparr>))"
proof -
  from assms have f: "IsMovingForward x" and dv: "DeltaValid x" and bv: "\<not> BaseValid x"
    by (simp_all add: scan_ready_def BaseValid_window DeltaValid_window)
  from forward_delta_below_upper [OF f dv] assms(1) bv dv delta_window_hd [OF assms(3)]
  show ?thesis
    by (cases "ro_upper x") (simp_all add: UpdateCurrent_round_def scan_ready_def ok_def Let_def)
qed

lemma round_delta_empty:
  assumes "scan_ready x" and "base_window x = b # bs" and "delta_window x = []"
  shows "UpdateCurrent_round x = Return (x\<lparr>m_equal_keys := False, m_current_at_base := True\<rparr>)"
  using assms
  by (simp add: UpdateCurrent_round_def scan_ready_def BaseValid_window DeltaValid_window ok_def
      Let_def)

lemma round_both:
  assumes "scan_ready x" and "base_window x = b # bs" and "delta_window x = d # ds"
  shows "UpdateCurrent_round x =
           (if we_key d < fst b then
              (if is_tombstone d then Again (AdvanceDelta (x\<lparr>m_equal_keys := False\<rparr>))
               else Return (x\<lparr>m_equal_keys := False, m_current_at_base := False\<rparr>))
            else if we_key d = fst b then
              (if is_tombstone d
               then Again (AdvanceBase (AdvanceDelta (x\<lparr>m_equal_keys := True\<rparr>)))
               else Return (x\<lparr>m_equal_keys := True, m_current_at_base := False\<rparr>))
            else Return (x\<lparr>m_equal_keys := False, m_current_at_base := True\<rparr>))"
proof -
  from assms have f: "IsMovingForward x" and dv: "DeltaValid x" and bv: "BaseValid x"
    by (simp_all add: scan_ready_def BaseValid_window DeltaValid_window)
  from f bv dv delta_window_hd [OF assms(3)] base_window_hd(1) [OF assms(2)]
  show ?thesis
    by (simp add: UpdateCurrent_round_def Let_def Compare_def)
qed

lemma scan_step:
  assumes "IsMovingForward r" and "Valid r"
  shows "scan r = (key r, val r)
           # scan (UpdateCurrent_loop ((Advance_moves (r\<lparr>m_progress := FORWARD\<rparr>))\<lparr>m_status := OK\<rparr>))"
  using assms by (simp add: scan.simps [of r] Next_forward UpdateCurrent_def)

lemma expose_delta:
  assumes "scan_ready x" and "delta_window x = d # ds"
  shows "\<exists>x'. scan (x\<lparr>m_equal_keys := False, m_current_at_base := False\<rparr>)
                = (we_key d, we_value d) # scan (UpdateCurrent_loop x')
              \<and> scan_ready x' \<and> base_window x' = base_window x \<and> delta_window x' = ds"
proof -
  let ?r = "x\<lparr>m_equal_keys := False, m_current_at_base := False\<rparr>"
  let ?p = "?r\<lparr>m_progress := FORWARD\<rparr>"
  let ?x' = "(Advance_moves ?p)\<lparr>m_status := OK\<rparr>"
  from assms have f: "IsMovingForward ?r" and v: "Valid ?r"
    by (simp_all add: scan_ready_def Valid_def ok_def DeltaValid_window)
  have m: "Advance_moves ?p = AdvanceDelta ?p" by (simp add: Advance_moves_def)
  have w: "delta_window ?p \<noteq> []" using assms(2) by simp
  have "key ?r = we_key d \<and> val ?r = we_value d"
    using delta_window_hd [of ?r d ds] assms(2) by (simp add: key_def val_def)
  with scan_step [OF f v] have "scan ?r = (we_key d, we_value d) # scan (UpdateCurrent_loop ?x')"
    by simp
  moreover have "scan_ready ?x'"
    using assms(1) unfolding m by (simp add: scan_ready_def)
  moreover have "base_window ?x' = base_window x"
    unfolding m using window_AdvanceDelta(1) [of ?p] by simp
  moreover have "delta_window ?x' = ds"
    unfolding m using window_AdvanceDelta(2) [of ?p, OF _ w] assms(2) by simp
  ultimately show ?thesis by blast
qed

lemma expose_delta_equal:
  assumes "scan_ready x" and "base_window x = b # bs" and "delta_window x = d # ds"
  shows "\<exists>x'. scan (x\<lparr>m_equal_keys := True, m_current_at_base := False\<rparr>)
                = (we_key d, we_value d) # scan (UpdateCurrent_loop x')
              \<and> scan_ready x' \<and> base_window x' = bs \<and> delta_window x' = ds"
proof -
  let ?r = "x\<lparr>m_equal_keys := True, m_current_at_base := False\<rparr>"
  let ?p = "?r\<lparr>m_progress := FORWARD\<rparr>"
  let ?x' = "(Advance_moves ?p)\<lparr>m_status := OK\<rparr>"
  from assms have f: "IsMovingForward ?r" and v: "Valid ?r"
    by (simp_all add: scan_ready_def Valid_def ok_def DeltaValid_window)
  have m: "Advance_moves ?p = AdvanceDelta (AdvanceBase ?p)" by (simp add: Advance_moves_def)
  have wb: "base_window ?p \<noteq> []" using assms(2) by simp
  have wd: "delta_window (AdvanceBase ?p) \<noteq> []"
    using assms(3) window_AdvanceBase(1) [of ?p] by simp
  have "key ?r = we_key d \<and> val ?r = we_value d"
    using delta_window_hd [of ?r d ds] assms(3) by (simp add: key_def val_def)
  with scan_step [OF f v] have "scan ?r = (we_key d, we_value d) # scan (UpdateCurrent_loop ?x')"
    by simp
  moreover have "scan_ready ?x'"
    using assms(1) unfolding m by (simp add: scan_ready_def)
  moreover have "base_window ?x' = bs"
    unfolding m
    using window_AdvanceDelta(1) [of "AdvanceBase ?p"] window_AdvanceBase(2) [of ?p, OF _ wb]
      assms(2)
    by simp
  moreover have "delta_window ?x' = ds"
    unfolding m
    using window_AdvanceDelta(2) [of "AdvanceBase ?p", OF _ wd] window_AdvanceBase(1) [of ?p]
      assms(3)
    by simp
  ultimately show ?thesis by blast
qed

lemma expose_base:
  assumes "scan_ready x" and "base_window x = b # bs"
  shows "\<exists>x'. scan (x\<lparr>m_equal_keys := False, m_current_at_base := True\<rparr>)
                = b # scan (UpdateCurrent_loop x')
              \<and> scan_ready x' \<and> base_window x' = bs \<and> delta_window x' = delta_window x"
proof -
  let ?r = "x\<lparr>m_equal_keys := False, m_current_at_base := True\<rparr>"
  let ?p = "?r\<lparr>m_progress := FORWARD\<rparr>"
  let ?x' = "(Advance_moves ?p)\<lparr>m_status := OK\<rparr>"
  from assms have f: "IsMovingForward ?r" and v: "Valid ?r"
    by (simp_all add: scan_ready_def Valid_def ok_def BaseValid_window)
  have m: "Advance_moves ?p = AdvanceBase ?p" by (simp add: Advance_moves_def)
  have w: "base_window ?p \<noteq> []" using assms(2) by simp
  have "(key ?r, val ?r) = b"
    using base_window_hd [of ?r b bs] assms(2) by (simp add: key_def val_def)
  with scan_step [OF f v] have "scan ?r = b # scan (UpdateCurrent_loop ?x')"
    by simp
  moreover have "scan_ready ?x'"
    using assms(1) unfolding m by (simp add: scan_ready_def)
  moreover have "base_window ?x' = bs"
    unfolding m using window_AdvanceBase(2) [of ?p, OF _ w] assms(2) by simp
  moreover have "delta_window ?x' = delta_window x"
    unfolding m using window_AdvanceBase(1) [of ?p] by simp
  ultimately show ?thesis by blast
qed

lemma skip_delta:
  assumes "scan_ready x" and "delta_window x = d # ds"
  shows "scan_ready (AdvanceDelta (x\<lparr>m_equal_keys := False\<rparr>))"
    and "base_window (AdvanceDelta (x\<lparr>m_equal_keys := False\<rparr>)) = base_window x"
    and "delta_window (AdvanceDelta (x\<lparr>m_equal_keys := False\<rparr>)) = ds"
  using assms window_AdvanceDelta [of "x\<lparr>m_equal_keys := False\<rparr>"]
  by (simp_all add: scan_ready_def)

lemma skip_both:
  assumes "scan_ready x" and "base_window x = b # bs" and "delta_window x = d # ds"
  shows "scan_ready (AdvanceBase (AdvanceDelta (x\<lparr>m_equal_keys := True\<rparr>)))"
    and "base_window (AdvanceBase (AdvanceDelta (x\<lparr>m_equal_keys := True\<rparr>))) = bs"
    and "delta_window (AdvanceBase (AdvanceDelta (x\<lparr>m_equal_keys := True\<rparr>))) = ds"
  using assms window_AdvanceDelta [of "x\<lparr>m_equal_keys := True\<rparr>"]
    window_AdvanceBase [of "AdvanceDelta (x\<lparr>m_equal_keys := True\<rparr>)"]
  by (simp_all add: scan_ready_def)

lemma loop_Return: "UpdateCurrent_round x = Return r \<Longrightarrow> UpdateCurrent_loop x = r"
  by (simp add: UpdateCurrent_loop.simps [of x])

lemma loop_Again:
  "UpdateCurrent_round x = Again n \<Longrightarrow> UpdateCurrent_loop x = UpdateCurrent_loop n"
  by (simp add: UpdateCurrent_loop.simps [of x])

lemma scan_not_Valid: "\<not> Valid r \<Longrightarrow> scan r = []"
  by (simp add: scan.simps [of r])

lemma scan_UpdateCurrent_loop:
  "scan_ready x \<Longrightarrow> scan (UpdateCurrent_loop x) = merge_fwd (base_window x) (delta_window x)"
proof (induction "length (base_window x) + length (delta_window x)" arbitrary: x
    rule: less_induct)
  case less
  note ready = less.prems
  note IH = less.hyps
  show ?case
  proof (cases "base_window x")
    case bNil: Nil
    show ?thesis
    proof (cases "delta_window x")
      case Nil
      have "\<not> Valid (x\<lparr>m_equal_keys := False\<rparr>)"
        using ready bNil Nil
        by (simp add: Valid_def scan_ready_def BaseValid_window DeltaValid_window)
      then show ?thesis
        using loop_Return [OF round_both_empty [OF ready bNil Nil]] bNil Nil
        by (simp add: scan_not_Valid)
    next
      case (Cons d ds)
      note r = round_base_empty [OF ready bNil Cons]
      show ?thesis
      proof (cases "is_tombstone d")
        case True
        let ?n = "AdvanceDelta (x\<lparr>m_equal_keys := False\<rparr>)"
        note s = skip_delta [OF ready Cons]
        have "scan (UpdateCurrent_loop ?n) = merge_fwd (base_window ?n) (delta_window ?n)"
          by (rule IH [OF _ s(1)]) (simp add: s Cons)
        with True r show ?thesis
          by (simp add: loop_Again [of x ?n] s bNil Cons)
      next
        case False
        from expose_delta [OF ready Cons] obtain x' where
          x': "scan (x\<lparr>m_equal_keys := False, m_current_at_base := False\<rparr>)
                 = (we_key d, we_value d) # scan (UpdateCurrent_loop x')"
            "scan_ready x'" "base_window x' = base_window x" "delta_window x' = ds"
          by blast
        have "scan (UpdateCurrent_loop x') = merge_fwd (base_window x') (delta_window x')"
          by (rule IH [OF _ x'(2)]) (simp add: x' Cons)
        with False r x' show ?thesis
          by (simp add: loop_Return [of x "x\<lparr>m_equal_keys := False, m_current_at_base := False\<rparr>"]
              bNil Cons)
      qed
    qed
  next
    case bCons: (Cons b bs)
    show ?thesis
    proof (cases "delta_window x")
      case Nil
      from expose_base [OF ready bCons] obtain x' where
        x': "scan (x\<lparr>m_equal_keys := False, m_current_at_base := True\<rparr>)
               = b # scan (UpdateCurrent_loop x')"
          "scan_ready x'" "base_window x' = bs" "delta_window x' = delta_window x"
        by blast
      have "scan (UpdateCurrent_loop x') = merge_fwd (base_window x') (delta_window x')"
        by (rule IH [OF _ x'(2)]) (simp add: x' bCons)
      with x' show ?thesis
        using loop_Return [OF round_delta_empty [OF ready bCons Nil]]
        by (simp add: bCons Nil)
    next
      case (Cons d ds)
      note r = round_both [OF ready bCons Cons]
      consider (less_tomb) "we_key d < fst b" "is_tombstone d"
        | (less_put) "we_key d < fst b" "\<not> is_tombstone d"
        | (eq_tomb) "we_key d = fst b" "is_tombstone d"
        | (eq_put) "we_key d = fst b" "\<not> is_tombstone d"
        | (greater) "fst b < we_key d"
        by fastforce
      then show ?thesis
      proof cases
        case less_tomb
        let ?n = "AdvanceDelta (x\<lparr>m_equal_keys := False\<rparr>)"
        note s = skip_delta [OF ready Cons]
        have "scan (UpdateCurrent_loop ?n) = merge_fwd (base_window ?n) (delta_window ?n)"
          by (rule IH [OF _ s(1)]) (simp add: s Cons)
        with less_tomb r show ?thesis
          by (simp add: loop_Again [of x ?n] s bCons Cons)
      next
        case less_put
        from expose_delta [OF ready Cons] obtain x' where
          x': "scan (x\<lparr>m_equal_keys := False, m_current_at_base := False\<rparr>)
                 = (we_key d, we_value d) # scan (UpdateCurrent_loop x')"
            "scan_ready x'" "base_window x' = base_window x" "delta_window x' = ds"
          by blast
        have "scan (UpdateCurrent_loop x') = merge_fwd (base_window x') (delta_window x')"
          by (rule IH [OF _ x'(2)]) (simp add: x' Cons)
        with less_put r x' show ?thesis
          by (simp add: loop_Return [of x "x\<lparr>m_equal_keys := False, m_current_at_base := False\<rparr>"]
              bCons Cons)
      next
        case eq_tomb
        let ?n = "AdvanceBase (AdvanceDelta (x\<lparr>m_equal_keys := True\<rparr>))"
        note s = skip_both [OF ready bCons Cons]
        have "scan (UpdateCurrent_loop ?n) = merge_fwd (base_window ?n) (delta_window ?n)"
          by (rule IH [OF _ s(1)]) (simp add: s bCons Cons)
        with eq_tomb r show ?thesis
          by (simp add: loop_Again [of x ?n] s bCons Cons)
      next
        case eq_put
        from expose_delta_equal [OF ready bCons Cons] obtain x' where
          x': "scan (x\<lparr>m_equal_keys := True, m_current_at_base := False\<rparr>)
                 = (we_key d, we_value d) # scan (UpdateCurrent_loop x')"
            "scan_ready x'" "base_window x' = bs" "delta_window x' = ds"
          by blast
        have "scan (UpdateCurrent_loop x') = merge_fwd (base_window x') (delta_window x')"
          by (rule IH [OF _ x'(2)]) (simp add: x' bCons Cons)
        with eq_put r x' show ?thesis
          by (simp add: loop_Return [of x "x\<lparr>m_equal_keys := True, m_current_at_base := False\<rparr>"]
              bCons Cons)
      next
        case greater
        from expose_base [OF ready bCons] obtain x' where
          x': "scan (x\<lparr>m_equal_keys := False, m_current_at_base := True\<rparr>)
                 = b # scan (UpdateCurrent_loop x')"
            "scan_ready x'" "base_window x' = bs" "delta_window x' = delta_window x"
          by blast
        have "scan (UpdateCurrent_loop x') = merge_fwd (base_window x') (delta_window x')"
          by (rule IH [OF _ x'(2)]) (simp add: x' bCons)
        moreover from greater have "\<not> we_key d < fst b" "we_key d \<noteq> fst b" by auto
        ultimately show ?thesis using r x'
          by (simp add: loop_Return [of x "x\<lparr>m_equal_keys := False, m_current_at_base := True\<rparr>"]
              bCons Cons)
      qed
    qed
  qed
qed

text \<open>
  The forward scan from \<open>SeekToFirst\<close> is the merged view of the two lists, each up to
  its upper bound.
\<close>

definition below_base_upper :: "('k::linorder, 'v) BaseDeltaIterator \<Rightarrow> ('k \<times> 'v) list" where
  "below_base_upper it =
     takeWhile (\<lambda>x. base_below_upper it (fst x)) (b_items (m_base_iterator it))"

definition below_delta_upper :: "('k::linorder, 'v) BaseDeltaIterator \<Rightarrow> ('k, 'v) WriteEntry list" where
  "below_delta_upper it =
     takeWhile (\<lambda>e. delta_below_upper it (we_key e)) (d_items (m_delta_iterator it))"

lemma cur_rest_first [simp]: "cur_rest xs (cur_first xs) = xs"
  by (simp add: cur_rest_def cur_first_def)

lemma forward_scan_merge:
  assumes "b_status (m_base_iterator it) = OK" and "d_status (m_delta_iterator it) = OK"
  shows "forward_scan it = merge_fwd (below_base_upper it) (below_delta_upper it)"
proof -
  let ?x = "it\<lparr>m_progress := SEEK_TO_FIRST,
               m_base_iterator := b_SeekToFirst (m_base_iterator it),
               m_delta_iterator := d_SeekToFirst (m_delta_iterator it), m_status := OK\<rparr>"
  have r: "scan_ready ?x"
    using assms by (simp add: scan_ready_def IsMovingForward_def)
  have "base_below_upper ?x = base_below_upper it"
    by (simp add: base_below_upper_def base_iterator_upper_bound_def b_SeekToFirst_def
        fun_eq_iff split: option.splits)
  then have b: "base_window ?x = below_base_upper it"
    by (simp add: base_window_def below_base_upper_def b_SeekToFirst_def)
  have "delta_below_upper ?x = delta_below_upper it"
    by (simp add: delta_below_upper_def ro_upper_def fun_eq_iff split: option.splits)
  then have d: "delta_window ?x = below_delta_upper it"
    by (simp add: delta_window_def below_delta_upper_def d_SeekToFirst_def)
  show ?thesis
    unfolding forward_scan_def SeekToFirst_def UpdateCurrent_def
    by (simp only: scan_UpdateCurrent_loop [OF r] b d)
qed

section \<open>The merged view of sorted lists\<close>

lemma merge_fwd_origin:
  "(k, v) \<in> set (merge_fwd bs ds)
   \<Longrightarrow> (k, v) \<in> set bs \<or> (\<exists>d\<in>set ds. \<not> is_tombstone d \<and> we_key d = k \<and> we_value d = v)"
  by (induction bs ds rule: merge_fwd.induct) (auto split: if_splits)

lemma merge_fwd_delta:
  "d \<in> set ds \<Longrightarrow> \<not> is_tombstone d \<Longrightarrow> (we_key d, we_value d) \<in> set (merge_fwd bs ds)"
  by (induction bs ds rule: merge_fwd.induct) (auto split: if_splits)

lemma merge_fwd_shadow:
  assumes "sorted_wrt (<) (map fst bs)" and "sorted_wrt (<) (map we_key ds)"
    and "(k, v) \<in> set (merge_fwd bs ds)" and "d \<in> set ds" and "we_key d = k"
  shows "\<not> is_tombstone d \<and> v = we_value d"
  using assms
proof (induction bs ds rule: merge_fwd.induct)
  case 1
  then show ?case by simp
next
  case (2 d0 ds)
  from "2.prems"(2) have lt: "\<forall>x\<in>set ds. we_key d0 < we_key x" and s: "sorted_wrt (<) (map we_key ds)"
    by simp_all
  show ?case
  proof (cases "d = d0")
    case True
    have "(k, v) \<notin> set (merge_fwd [] ds)"
    proof
      assume "(k, v) \<in> set (merge_fwd [] ds)"
      from merge_fwd_origin [OF this] obtain x where "x \<in> set ds" "we_key x = k" by auto
      with lt True "2.prems"(5) show False by auto
    qed
    with "2.prems"(3,5) True show ?thesis by (auto split: if_splits)
  next
    case False
    with "2.prems"(4) have d: "d \<in> set ds" by simp
    with lt "2.prems"(5) have "k \<noteq> we_key d0" by auto
    with "2.prems"(3) have "(k, v) \<in> set (merge_fwd [] ds)" by (auto split: if_splits)
    with 2 s d show ?thesis by (auto split: if_splits)
  qed
next
  case (3 b bs)
  then show ?case by simp
next
  case (4 b bs d0 ds)
  from "4.prems"(1) have ltb: "\<forall>x\<in>set bs. fst b < fst x" and sb: "sorted_wrt (<) (map fst bs)"
    by simp_all
  from "4.prems"(2) have lt: "\<forall>x\<in>set ds. we_key d0 < we_key x" and s: "sorted_wrt (<) (map we_key ds)"
    by simp_all
  consider (less) "we_key d0 < fst b" | (eq) "we_key d0 = fst b" | (greater) "fst b < we_key d0"
    by fastforce
  then show ?case
  proof cases
    case less
    show ?thesis
    proof (cases "d = d0")
      case True
      have "(k, v) \<notin> set (merge_fwd (b # bs) ds)"
      proof
        assume "(k, v) \<in> set (merge_fwd (b # bs) ds)"
        from merge_fwd_origin [OF this]
        have "(k, v) \<in> set (b # bs) \<or> (\<exists>x\<in>set ds. we_key x = k)" by auto
        with lt ltb less True "4.prems"(5) show False by auto
      qed
      with "4.prems"(3,5) True less show ?thesis by (auto split: if_splits)
    next
      case False
      with "4.prems"(4) have d: "d \<in> set ds" by simp
      with lt "4.prems"(5) have "k \<noteq> we_key d0" by auto
      with "4.prems"(3) less have "(k, v) \<in> set (merge_fwd (b # bs) ds)"
        by (auto split: if_splits)
      with "4.IH"(1,2) [OF less] "4.prems"(1,5) s d show ?thesis by (cases "is_tombstone d0") auto
    qed
  next
    case eq
    then have nl: "\<not> we_key d0 < fst b" by simp
    show ?thesis
    proof (cases "d = d0")
      case True
      have "(k, v) \<notin> set (merge_fwd bs ds)"
      proof
        assume "(k, v) \<in> set (merge_fwd bs ds)"
        from merge_fwd_origin [OF this]
        have "(k, v) \<in> set bs \<or> (\<exists>x\<in>set ds. we_key x = k)" by auto
        with lt ltb eq True "4.prems"(5) show False by auto
      qed
      with "4.prems"(3,5) True eq show ?thesis by (auto split: if_splits)
    next
      case False
      with "4.prems"(4) have d: "d \<in> set ds" by simp
      with lt "4.prems"(5) have "k \<noteq> we_key d0" by auto
      with "4.prems"(3) eq have "(k, v) \<in> set (merge_fwd bs ds)"
        by (auto split: if_splits)
      with "4.IH"(3,4) [OF nl eq] "4.prems"(5) sb s d show ?thesis
        by (cases "is_tombstone d0") auto
    qed
  next
    case greater
    then have nl: "\<not> we_key d0 < fst b" and ne: "we_key d0 \<noteq> fst b" by auto
    from greater lt have "\<forall>x\<in>set (d0 # ds). fst b < we_key x" by auto
    with "4.prems"(4,5) have "k \<noteq> fst b" by auto
    with "4.prems"(3) nl ne have "(k, v) \<in> set (merge_fwd bs (d0 # ds))" by auto
    with "4.IH"(5) [OF nl ne] "4.prems"(2,4,5) sb show ?thesis by simp
  qed
qed

lemma sorted_takeWhile_mem:
  assumes "sorted_wrt (<) (map f xs)" and "x \<in> set xs" and "P (f x)"
    and "\<And>a b. a < b \<Longrightarrow> P b \<Longrightarrow> P a"
  shows "x \<in> set (takeWhile (\<lambda>y. P (f y)) xs)"
  using assms(1,2)
proof (induction xs)
  case Nil
  then show ?case by simp
next
  case (Cons y ys)
  show ?case
  proof (cases "x = y")
    case True
    with assms(3) show ?thesis by simp
  next
    case False
    with Cons.prems have x: "x \<in> set ys" and "f y < f x" by auto
    with assms(3,4) have "P (f y)" by blast
    with Cons x show ?thesis by simp
  qed
qed

lemma sorted_takeWhile_map:
  "sorted_wrt (<) (map f xs) \<Longrightarrow> sorted_wrt (<) (map f (takeWhile P xs))"
  by (induction xs) (auto dest: set_takeWhileD)

section \<open>Index entries and \<open>WriteBatchEntryComparator\<close>\<close>

text \<open>
  \<open>size_t\<close> is a 64-bit word, the column family id a 32-bit word.
  \<open>port::kMaxSizet\<close> is the largest \<open>size_t\<close>.
\<close>

record WriteBatchIndexEntry =
  offset :: "64 word"
  column_family :: "32 word"
  key_offset :: "64 word"
  key_size :: "64 word"
  search_key :: "Slice option"

definition kMaxSizet :: "64 word" where
  "kMaxSizet = - 1"

definition kFlagMinInCf :: "64 word" where
  "kFlagMinInCf = kMaxSizet"

text \<open>The two constructors: a real entry, and a dummy entry that is a search key.\<close>

definition index_entry :: "64 word \<Rightarrow> 32 word \<Rightarrow> 64 word \<Rightarrow> 64 word \<Rightarrow> WriteBatchIndexEntry" where
  "index_entry o' c ko ksz =
     \<lparr>offset = o', column_family = c, key_offset = ko, key_size = ksz, search_key = None\<rparr>"

definition search_entry ::
  "Slice option \<Rightarrow> 32 word \<Rightarrow> bool \<Rightarrow> bool \<Rightarrow> WriteBatchIndexEntry" where
  "search_entry sk cf is_forward_direction is_seek_to_first =
     \<lparr>offset = (if is_forward_direction then 0 else kMaxSizet),
      column_family = cf,
      key_offset = 0,
      key_size = (if is_seek_to_first then kFlagMinInCf else 0),
      search_key = sk\<rparr>"

definition is_min_in_cf :: "WriteBatchIndexEntry \<Rightarrow> bool" where
  "is_min_in_cf e = (key_size e = kFlagMinInCf)"

text \<open>
  A key comparator gives a negative number, zero or a positive number.
  \<open>cf_comparators_\<close> is a vector of pointers, \<open>None\<close> the null pointer.
  \<open>write_batch\<close> is the byte string \<open>write_batch_->Data()\<close>.
\<close>

type_synonym Comparator = "Slice \<Rightarrow> Slice \<Rightarrow> int"

record WriteBatchEntryComparator =
  default_comparator :: Comparator
  cf_comparators :: "Comparator option list"
  write_batch :: Slice

definition CompareKey :: "WriteBatchEntryComparator \<Rightarrow> 32 word \<Rightarrow> Slice \<Rightarrow> Slice \<Rightarrow> int" where
  "CompareKey c cf key1 key2 =
     (if unat cf < length (cf_comparators c) \<and> cf_comparators c ! unat cf \<noteq> None
      then the (cf_comparators c ! unat cf) key1 key2
      else default_comparator c key1 key2)"

text \<open>\<open>Slice(data + key_offset, key_size)\<close>; the bytes that lie inside the buffer.\<close>

definition data_slice :: "Slice \<Rightarrow> 64 word \<Rightarrow> 64 word \<Rightarrow> Slice" where
  "data_slice d off sz = take (unat sz) (drop (unat off) d)"

definition entry_key :: "WriteBatchEntryComparator \<Rightarrow> WriteBatchIndexEntry \<Rightarrow> Slice" where
  "entry_key c e =
     (case search_key e of
        None \<Rightarrow> data_slice (write_batch c) (key_offset e) (key_size e)
      | Some k \<Rightarrow> k)"

text \<open>\<open>WriteBatchEntryComparator::operator()\<close>.\<close>

definition compare_entries ::
  "WriteBatchEntryComparator \<Rightarrow> WriteBatchIndexEntry \<Rightarrow> WriteBatchIndexEntry \<Rightarrow> int" where
  "compare_entries c entry1 entry2 =
     (if column_family entry1 > column_family entry2 then 1
      else if column_family entry1 < column_family entry2 then - 1
      else if is_min_in_cf entry1 then - 1
      else if is_min_in_cf entry2 then 1
      else
        let key1 = entry_key c entry1;
            key2 = entry_key c entry2;
            cmp = CompareKey c (column_family entry1) key1 key2
        in if cmp \<noteq> 0 then cmp
           else if offset entry1 > offset entry2 then 1
           else if offset entry1 < offset entry2 then - 1
           else 0)"

section \<open>The per-column-family iterator \<open>WBWIIteratorImpl\<close>\<close>

text \<open>
  Modelled from the spec: the sorted index and its cursor (\<open>SkipList\<close> and
  \<open>SkipList::Iterator\<close> of \<open>memtable/skiplist.h\<close>). The index is the list of its entries
  in the order of the entry comparator; \<open>Seek\<close> finds the first entry that is not less
  than the target, \<open>SeekForPrev\<close> the last entry that is not greater.
\<close>

definition sl_Seek ::
  "WriteBatchEntryComparator \<Rightarrow> WriteBatchIndexEntry list \<Rightarrow> WriteBatchIndexEntry \<Rightarrow> cursor" where
  "sl_Seek c xs target =
     (let n = length (takeWhile (\<lambda>e. compare_entries c e target < 0) xs)
      in if n < length xs then Some n else None)"

definition sl_SeekForPrev ::
  "WriteBatchEntryComparator \<Rightarrow> WriteBatchIndexEntry list \<Rightarrow> WriteBatchIndexEntry \<Rightarrow> cursor" where
  "sl_SeekForPrev c xs target =
     (let n = length (takeWhile (\<lambda>e. compare_entries c e target \<le> 0) xs)
      in if n = 0 then None else Some (n - 1))"

record WBWIIteratorImpl =
  column_family_id :: "32 word"
  skip_list :: "WriteBatchIndexEntry list"
  skip_list_iter :: cursor
  it_write_batch :: Slice
  it_comparator :: WriteBatchEntryComparator

definition WBWI_Valid :: "WBWIIteratorImpl \<Rightarrow> bool" where
  "WBWI_Valid it =
     (if \<not> cur_valid (skip_list it) (skip_list_iter it) then False
      else column_family (skip_list it ! the (skip_list_iter it)) = column_family_id it)"

definition WBWI_SeekToFirst :: "WBWIIteratorImpl \<Rightarrow> WBWIIteratorImpl" where
  "WBWI_SeekToFirst it =
     it\<lparr>skip_list_iter :=
          sl_Seek (it_comparator it) (skip_list it)
            (search_entry None (column_family_id it) True True)\<rparr>"

definition WBWI_SeekToLast :: "WBWIIteratorImpl \<Rightarrow> WBWIIteratorImpl" where
  "WBWI_SeekToLast it =
     (let p = sl_Seek (it_comparator it) (skip_list it)
                (search_entry None (column_family_id it + 1) True True)
      in if \<not> cur_valid (skip_list it) p then it\<lparr>skip_list_iter := cur_last (skip_list it)\<rparr>
         else it\<lparr>skip_list_iter := cur_prev (skip_list it) p\<rparr>)"

definition WBWI_Seek :: "Slice \<Rightarrow> WBWIIteratorImpl \<Rightarrow> WBWIIteratorImpl" where
  "WBWI_Seek k it =
     it\<lparr>skip_list_iter :=
          sl_Seek (it_comparator it) (skip_list it)
            (search_entry (Some k) (column_family_id it) True False)\<rparr>"

definition WBWI_SeekForPrev :: "Slice \<Rightarrow> WBWIIteratorImpl \<Rightarrow> WBWIIteratorImpl" where
  "WBWI_SeekForPrev k it =
     it\<lparr>skip_list_iter :=
          sl_SeekForPrev (it_comparator it) (skip_list it)
            (search_entry (Some k) (column_family_id it) False False)\<rparr>"

definition WBWI_Next :: "WBWIIteratorImpl \<Rightarrow> WBWIIteratorImpl" where
  "WBWI_Next it = it\<lparr>skip_list_iter := cur_next (skip_list it) (skip_list_iter it)\<rparr>"

definition WBWI_Prev :: "WBWIIteratorImpl \<Rightarrow> WBWIIteratorImpl" where
  "WBWI_Prev it = it\<lparr>skip_list_iter := cur_prev (skip_list it) (skip_list_iter it)\<rparr>"

text \<open>
  \<open>Entry\<close> decodes the record at the offset of the current index entry into a fresh
  \<open>WriteEntry\<close> (whose type starts as \<open>kPutRecord\<close>); its assertions are debug checks.
\<close>

definition fresh_outs :: OutParams where
  "fresh_outs =
     \<lparr>p_type = Some kPutRecord, p_key = Some [], p_value = Some [], p_blob = Some [],
      p_xid = Some []\<rparr>"

definition WBWI_Entry ::
  "RecordReader \<Rightarrow> TagTable \<Rightarrow> WBWIIteratorImpl \<Rightarrow> (Slice, Slice) WriteEntry" where
  "WBWI_Entry rr T it =
     (let iter_entry = skip_list it ! the (skip_list_iter it);
          (s, ps) = GetEntryFromDataOffset rr T (it_write_batch it)
                      (unat (offset iter_entry)) fresh_outs
      in \<lparr>we_type = the (p_type ps), we_key = the (p_key ps), we_value = the (p_value ps)\<rparr>)"

definition MatchesKey ::
  "RecordReader \<Rightarrow> TagTable \<Rightarrow> WBWIIteratorImpl \<Rightarrow> 32 word \<Rightarrow> Slice \<Rightarrow> bool" where
  "MatchesKey rr T it cf_id k =
     (if WBWI_Valid it
      then CompareKey (it_comparator it) cf_id k (we_key (WBWI_Entry rr T it)) = 0
      else False)"

section \<open>The batch lookup \<open>WriteBatchWithIndexInternal::GetFromBatch\<close>\<close>

datatype Result = kFound | kDeleted | kNotFound | kMergeInProgress | kError

text \<open>
  \<open>MergeContext\<close> is the list of operands in the order they are pushed. The merge
  operator with \<open>MergeHelper::TimedFullMerge\<close> around it is a function of the key, the
  existing value (\<open>None\<close> for the null pointer) and the operands that gives a status and
  the merged value. A column family handle gives its id and its merge operator;
  \<open>GetColumnFamilyID\<close> of a null handle is \<open>0\<close>.
\<close>

type_synonym MergeContext = "Slice list"

type_synonym MergeOperator = "Slice \<Rightarrow> Slice option \<Rightarrow> Slice list \<Rightarrow> Status \<times> Slice"

record ColumnFamilyHandle =
  cf_id :: "32 word"
  merge_operator :: "MergeOperator option"

definition GetColumnFamilyID :: "ColumnFamilyHandle option \<Rightarrow> 32 word" where
  "GetColumnFamilyID h = (case h of None \<Rightarrow> 0 | Some cfh \<Rightarrow> cf_id cfh)"

text \<open>
  \<open>MergeKey\<close>: the three calls of \<open>TimedFullMerge\<close> differ in the logger, the statistics
  and the clock only. The result string is returned with the status.
\<close>

definition MergeKey ::
  "ColumnFamilyHandle option \<Rightarrow> Slice \<Rightarrow> Slice option \<Rightarrow> MergeContext \<Rightarrow> Slice
     \<Rightarrow> Status \<times> Slice" where
  "MergeKey cf_handle k v merge_context result =
     (case cf_handle of
        Some cfh \<Rightarrow>
          (case merge_operator cfh of
             None \<Rightarrow> (InvalidArgument ''Merge_operator must be set for column_family'', result)
           | Some mo \<Rightarrow> mo k v merge_context)
      | None \<Rightarrow> (InvalidArgument ''Must provide a column_family'', result))"

text \<open>The batch with its index: what \<open>NewIterator\<close> hands to the iterator.\<close>

record WriteBatchWithIndex =
  wbwi_write_batch :: Slice
  wbwi_skip_list :: "WriteBatchIndexEntry list"
  wbwi_comparator :: WriteBatchEntryComparator

definition NewIterator :: "WriteBatchWithIndex \<Rightarrow> ColumnFamilyHandle option \<Rightarrow> WBWIIteratorImpl" where
  "NewIterator batch cf_handle =
     \<lparr>column_family_id = GetColumnFamilyID cf_handle,
      skip_list = wbwi_skip_list batch,
      skip_list_iter = None,
      it_write_batch = wbwi_write_batch batch,
      it_comparator = wbwi_comparator batch\<rparr>"

text \<open>The first loop: \<open>while (iter->Valid() && iter->MatchesKey(cf_id, key)) iter->Next()\<close>.\<close>

definition fwd_rest :: "WBWIIteratorImpl \<Rightarrow> nat" where
  "fwd_rest it =
     (case skip_list_iter it of None \<Rightarrow> 0 | Some i \<Rightarrow> length (skip_list it) - i)"

definition bwd_rest :: "WBWIIteratorImpl \<Rightarrow> nat" where
  "bwd_rest it = (case skip_list_iter it of None \<Rightarrow> 0 | Some i \<Rightarrow> Suc i)"

lemma fwd_rest_Next: "WBWI_Valid it \<Longrightarrow> fwd_rest (WBWI_Next it) < fwd_rest it"
  by (auto simp: fwd_rest_def WBWI_Valid_def WBWI_Next_def cur_valid_def cur_next_def
      split: option.splits if_splits)

lemma bwd_rest_Prev: "WBWI_Valid it \<Longrightarrow> bwd_rest (WBWI_Prev it) < bwd_rest it"
  by (auto simp: bwd_rest_def WBWI_Valid_def WBWI_Prev_def cur_valid_def cur_prev_def
      split: option.splits if_splits)

function skip_matching ::
  "RecordReader \<Rightarrow> TagTable \<Rightarrow> 32 word \<Rightarrow> Slice \<Rightarrow> WBWIIteratorImpl \<Rightarrow> WBWIIteratorImpl" where
  "skip_matching rr T cf k it =
     (if WBWI_Valid it \<and> MatchesKey rr T it cf k
      then skip_matching rr T cf k (WBWI_Next it)
      else it)"
  by pat_completeness auto
termination
  by (relation "measure (\<lambda>(rr, T, cf, k, it). fwd_rest it)") (simp_all add: fwd_rest_Next)

declare skip_matching.simps [simp del]

text \<open>
  The state of the second loop: the iterator, \<open>result\<close>, \<open>*s\<close>, \<open>entry_value\<close> and the
  merge context.
\<close>

record ScanState =
  sc_iter :: WBWIIteratorImpl
  sc_result :: Result
  sc_s :: Status
  sc_entry_value :: Slice
  sc_merge_context :: MergeContext

text \<open>The \<open>switch (entry.type)\<close> of the second loop.\<close>

definition scan_switch :: "(Slice, Slice) WriteEntry \<Rightarrow> ScanState \<Rightarrow> ScanState" where
  "scan_switch entry st =
     (case we_type entry of
        kPutRecord \<Rightarrow> st\<lparr>sc_result := kFound, sc_entry_value := we_value entry\<rparr>
      | kMergeRecord \<Rightarrow>
          st\<lparr>sc_result := kMergeInProgress,
             sc_merge_context := sc_merge_context st @ [we_value entry]\<rparr>
      | kDeleteRecord \<Rightarrow> st\<lparr>sc_result := kDeleted\<rparr>
      | kSingleDeleteRecord \<Rightarrow> st\<lparr>sc_result := kDeleted\<rparr>
      | kLogDataRecord \<Rightarrow> st
      | kXIDRecord \<Rightarrow> st
      | kDeleteRangeRecord \<Rightarrow>
          st\<lparr>sc_result := kError,
             sc_s := Corruption ''Unexpected entry in WriteBatchWithIndex:''
                       (TypeCode (we_type entry))\<rparr>)"

definition scan_round ::
  "RecordReader \<Rightarrow> TagTable \<Rightarrow> 32 word \<Rightarrow> Slice \<Rightarrow> bool \<Rightarrow> ScanState \<Rightarrow> ScanState round" where
  "scan_round rr T cf k overwrite_key st =
     (if \<not> WBWI_Valid (sc_iter st) then Return st
      else if \<not> MatchesKey rr T (sc_iter st) cf k then Return st
      else
        let st1 = scan_switch (WBWI_Entry rr T (sc_iter st)) st
        in if sc_result st1 = kFound \<or> sc_result st1 = kDeleted \<or> sc_result st1 = kError
           then Return st1
           else if sc_result st1 = kMergeInProgress \<and> overwrite_key = True then Return st1
           else Again (st1\<lparr>sc_iter := WBWI_Prev (sc_iter st1)\<rparr>))"

lemma scan_round_Again:
  assumes "scan_round rr T cf k ov st = Again n"
  shows "WBWI_Valid (sc_iter st) \<and> sc_iter n = WBWI_Prev (sc_iter st)"
  using assms
  by (auto simp: scan_round_def Let_def scan_switch_def split: if_splits WriteType.splits)

function scan_loop ::
  "RecordReader \<Rightarrow> TagTable \<Rightarrow> 32 word \<Rightarrow> Slice \<Rightarrow> bool \<Rightarrow> ScanState \<Rightarrow> ScanState" where
  "scan_loop rr T cf k overwrite_key st =
     (case scan_round rr T cf k overwrite_key st of
        Return r \<Rightarrow> r
      | Again n \<Rightarrow> scan_loop rr T cf k overwrite_key n)"
  by pat_completeness auto
termination
proof (relation "measure (\<lambda>(rr, T, cf, k, ov, st). bwd_rest (sc_iter st))")
  show "wf (measure (\<lambda>(rr, T, cf, k, ov, st). bwd_rest (sc_iter st)))" by simp
next
  fix rr T cf k overwrite_key st n
  assume "scan_round rr T cf k overwrite_key st = Again n"
  from scan_round_Again [OF this] bwd_rest_Prev [of "sc_iter st"]
  show "((rr, T, cf, k, overwrite_key, n), rr, T, cf, k, overwrite_key, st)
        \<in> measure (\<lambda>(rr, T, cf, k, ov, st). bwd_rest (sc_iter st))"
    by simp
qed

declare scan_loop.simps [simp del]

text \<open>
  \<open>GetFromBatch\<close> gives its result, \<open>*s\<close>, the merge context and \<open>*value\<close> as it leaves
  them.
\<close>

definition GetFromBatch ::
  "RecordReader \<Rightarrow> TagTable \<Rightarrow> ColumnFamilyHandle option \<Rightarrow> WriteBatchWithIndex \<Rightarrow> Slice
     \<Rightarrow> MergeContext \<Rightarrow> Slice \<Rightarrow> bool \<Rightarrow> Result \<times> Status \<times> MergeContext \<times> Slice" where
  "GetFromBatch rr T cf_handle batch k merge_context val0 overwrite_key =
     (let cf = GetColumnFamilyID cf_handle;
          s = OK;
          result = kNotFound;
          iter = NewIterator batch cf_handle;
          iter1 = skip_matching rr T cf k (WBWI_Seek k iter)
      in if \<not> ok s then (kError, s, merge_context, val0)
         else
           let iter2 = (if \<not> WBWI_Valid iter1 then WBWI_SeekToLast iter1 else WBWI_Prev iter1);
               st = scan_loop rr T cf k overwrite_key
                      \<lparr>sc_iter = iter2, sc_result = result, sc_s = s, sc_entry_value = [],
                       sc_merge_context = merge_context\<rparr>
           in if ok (sc_s st) then
                (if sc_result st = kFound \<or> sc_result st = kDeleted then
                   (if length (sc_merge_context st) > 0 then
                      (let (s1, v1) =
                             (if sc_result st = kFound
                              then MergeKey cf_handle k (Some (sc_entry_value st))
                                     (sc_merge_context st) val0
                              else MergeKey cf_handle k None (sc_merge_context st) val0)
                       in if ok s1 then (kFound, s1, sc_merge_context st, v1)
                          else (kError, s1, sc_merge_context st, v1))
                    else if sc_result st = kFound
                      then (sc_result st, sc_s st, sc_merge_context st, sc_entry_value st)
                    else (sc_result st, sc_s st, sc_merge_context st, val0))
                 else (sc_result st, sc_s st, sc_merge_context st, val0))
              else (sc_result st, sc_s st, sc_merge_context st, val0))"

section \<open>Worked examples\<close>

text \<open>Keys and values are numbers in the examples; \<open>1, 2, 3, \<dots>\<close> stand for \<open>a, b, c, \<dots>\<close>.\<close>

definition example_base :: "(nat \<times> nat) list \<Rightarrow> (nat, nat) BaseIter" where
  "example_base xs =
     \<lparr>b_items = xs, b_pos = None, b_status = OK, b_checks_upper = False,
      b_upper = None, b_lower = None\<rparr>"

definition example_delta :: "(nat, nat) WriteEntry list \<Rightarrow> (nat, nat) DeltaIter" where
  "example_delta xs = \<lparr>d_items = xs, d_pos = None, d_status = OK\<rparr>"

definition PutEntry :: "nat \<Rightarrow> nat \<Rightarrow> (nat, nat) WriteEntry" where
  "PutEntry k v = \<lparr>we_type = kPutRecord, we_key = k, we_value = v\<rparr>"

definition DeleteEntry :: "nat \<Rightarrow> (nat, nat) WriteEntry" where
  "DeleteEntry k = \<lparr>we_type = kDeleteRecord, we_key = k, we_value = 0\<rparr>"

definition bounds :: "nat option \<Rightarrow> nat option \<Rightarrow> nat ReadOptions option" where
  "bounds l u = Some \<lparr>iterate_lower_bound = l, iterate_upper_bound = u\<rparr>"

text \<open>Base \<open>a, c\<close> and delta \<open>Put(b)\<close>.\<close>

definition example_both_sides :: "(nat, nat) BaseDeltaIterator" where
  "example_both_sides =
     new_BaseDeltaIterator (example_base [(1, 1), (3, 3)]) (example_delta [PutEntry 2 20]) None"

text \<open>
  Scenarios S1 and S2 of the spec: base \<open>a, b, c\<close> with delta \<open>Put(b, 20)\<close>, and with
  delta \<open>Delete(b)\<close>.
\<close>

definition example_S1 :: "(nat, nat) BaseDeltaIterator" where
  "example_S1 =
     new_BaseDeltaIterator (example_base [(1, 1), (2, 2), (3, 3)])
       (example_delta [PutEntry 2 20]) None"

definition example_S2 :: "(nat, nat) BaseDeltaIterator" where
  "example_S2 =
     new_BaseDeltaIterator (example_base [(1, 1), (2, 2), (3, 3)])
       (example_delta [DeleteEntry 2]) None"

text \<open>Scenario S3 of the spec: base \<open>a, b, c, d\<close>, no delta, upper bound \<open>c\<close>.\<close>

definition example_S3 :: "(nat, nat) BaseDeltaIterator" where
  "example_S3 =
     new_BaseDeltaIterator (example_base [(1, 1), (2, 2), (3, 3), (4, 4)]) (example_delta [])
       (bounds None (Some 3))"

text \<open>An empty base, delta \<open>Put(a)\<close>, and the bounds \<open>[c, e)\<close>.\<close>

definition example_below_lower :: "(nat, nat) BaseDeltaIterator" where
  "example_below_lower =
     new_BaseDeltaIterator (example_base []) (example_delta [PutEntry 1 10])
       (bounds (Some 3) (Some 5))"

text \<open>
  A base iterator that reports the upper bound \<open>j\<close> of its own and holds \<open>g\<close>, delta
  \<open>Put(g)\<close>, and \<open>iterate_upper_bound = e\<close>.
\<close>

definition example_own_bound :: "(nat, nat) BaseDeltaIterator" where
  "example_own_bound =
     new_BaseDeltaIterator ((example_base [(7, 7)])\<lparr>b_upper := Some 10\<rparr>)
       (example_delta [PutEntry 7 70]) (bounds None (Some 5))"

text \<open>Base \<open>a, b, c\<close> and delta \<open>Delete(a)\<close>, no bounds.\<close>

definition example_deleted_first :: "(nat, nat) BaseDeltaIterator" where
  "example_deleted_first =
     new_BaseDeltaIterator (example_base [(1, 1), (2, 2), (3, 3)])
       (example_delta [DeleteEntry 1]) None"

text \<open>Base \<open>a, b, c\<close> and delta \<open>Delete(c)\<close>, no bounds.\<close>

definition example_deleted_last :: "(nat, nat) BaseDeltaIterator" where
  "example_deleted_last =
     new_BaseDeltaIterator (example_base [(1, 1), (2, 2), (3, 3)])
       (example_delta [DeleteEntry 3]) None"

text \<open>
  Base \<open>a, e\<close> (a base iterator that checks the upper bound \<open>m\<close> itself), delta
  \<open>Put(c), Put(z)\<close>, and \<open>iterate_upper_bound = m\<close>.
\<close>

definition example_flip_bound :: "(nat, nat) BaseDeltaIterator" where
  "example_flip_bound =
     new_BaseDeltaIterator
       ((example_base [(1, 1), (5, 5)])\<lparr>b_checks_upper := True, b_upper := Some 13\<rparr>)
       (example_delta [PutEntry 3 30, PutEntry 26 260])
       (bounds None (Some 13))"

text \<open>
  A table of pairwise different tag bytes and a toy record format for the examples: a
  record is three bytes, the tag, a one-byte key and a one-byte value. The batch starts
  with a header of twelve bytes.
\<close>

definition example_tags :: TagTable where
  "example_tags =
     \<lparr>kTypeDeletion = 0, kTypeValue = 1, kTypeMerge = 2, kTypeLogData = 3,
      kTypeColumnFamilyDeletion = 4, kTypeColumnFamilyValue = 5, kTypeColumnFamilyMerge = 6,
      kTypeSingleDeletion = 7, kTypeColumnFamilySingleDeletion = 8,
      kTypeBeginPrepareXID = 9, kTypeEndPrepareXID = 10, kTypeCommitXID = 11,
      kTypeRollbackXID = 12, kTypeNoop = 13, kTypeColumnFamilyRangeDeletion = 14,
      kTypeRangeDeletion = 15, kTypeBeginPersistedPrepareXID = 18,
      kTypeBeginUnprepareXID = 19\<rparr>"

definition example_reader :: RecordReader where
  "example_reader input =
     (case input of
        t # k # v # rest \<Rightarrow>
          (OK, \<lparr>rr_tag = t, rr_column_family = 0, rr_key = [k], rr_value = [v],
                rr_blob = [], rr_xid = []\<rparr>)
      | _ \<Rightarrow>
          (Corruption ''bad entry'' NoDetail,
           \<lparr>rr_tag = 0, rr_column_family = 0, rr_key = [], rr_value = [], rr_blob = [],
            rr_xid = []\<rparr>))"

text \<open>Bytewise comparison of keys, as a three-way comparator.\<close>

fun bytewise :: Comparator where
  "bytewise [] [] = 0"
| "bytewise [] (y # ys) = - 1"
| "bytewise (x # xs) [] = 1"
| "bytewise (x # xs) (y # ys) = (if x < y then - 1 else if y < x then 1 else bytewise xs ys)"

definition example_header :: Slice where
  "example_header = replicate 12 0"

text \<open>
  Scenario S4 of the spec: \<open>Merge(+1), Merge(+2), Put(10), Merge(+5)\<close> for the key \<open>k\<close>
  (the byte \<open>107\<close>), with all four records in the index.
\<close>

definition example_S4_data :: Slice where
  "example_S4_data = example_header @ [2, 107, 1] @ [2, 107, 2] @ [1, 107, 10] @ [2, 107, 5]"

definition example_S4_comparator :: WriteBatchEntryComparator where
  "example_S4_comparator =
     \<lparr>default_comparator = bytewise, cf_comparators = [], write_batch = example_S4_data\<rparr>"

definition example_S4_batch :: WriteBatchWithIndex where
  "example_S4_batch =
     \<lparr>wbwi_write_batch = example_S4_data,
      wbwi_skip_list =
        [index_entry 12 0 13 1, index_entry 15 0 16 1, index_entry 18 0 19 1,
         index_entry 21 0 22 1],
      wbwi_comparator = example_S4_comparator\<rparr>"

text \<open>A record with the tag \<open>0xFF\<close>, which is in no tag table.\<close>

definition example_unknown_data :: Slice where
  "example_unknown_data = example_header @ [255, 107, 1]"

text \<open>A merge operator that adds one-byte numbers.\<close>

definition adding_operator :: MergeOperator where
  "adding_operator k v operands =
     (OK, [(case v of None \<Rightarrow> 0 | Some x \<Rightarrow> sum_list x) + sum_list (map sum_list operands)])"

definition example_cf :: "ColumnFamilyHandle option" where
  "example_cf = Some \<lparr>cf_id = 0, merge_operator = Some adding_operator\<rparr>"


text \<open>
  \<open>Merge(+1), DeleteRange(k, z), Merge(+5)\<close> for the key \<open>k\<close>, and the state of the
  lookup's second loop when it comes to the \<open>DeleteRange\<close> record.
\<close>

definition example_range_data :: Slice where
  "example_range_data = example_header @ [2, 107, 1] @ [15, 107, 122] @ [2, 107, 5]"

definition example_range_batch :: WriteBatchWithIndex where
  "example_range_batch =
     \<lparr>wbwi_write_batch = example_range_data,
      wbwi_skip_list = [index_entry 12 0 13 1, index_entry 15 0 16 1, index_entry 18 0 19 1],
      wbwi_comparator =
        \<lparr>default_comparator = bytewise, cf_comparators = [],
         write_batch = example_range_data\<rparr>\<rparr>"

definition example_range_state :: ScanState where
  "example_range_state =
     \<lparr>sc_iter = (NewIterator example_range_batch example_cf)\<lparr>skip_list_iter := Some 1\<rparr>,
      sc_result = kMergeInProgress, sc_s = OK, sc_entry_value = [],
      sc_merge_context = [[5]]\<rparr>"

text \<open>The definitions that evaluate a lookup on an example.\<close>

lemmas example_defs =
  example_S4_batch_def example_S4_comparator_def example_S4_data_def example_header_def
  example_range_batch_def example_range_data_def example_range_state_def
  index_entry_def search_entry_def example_cf_def example_tags_def example_reader_def
  adding_operator_def

lemmas lookup_defs =
  NewIterator_def GetColumnFamilyID_def WBWI_Seek_def WBWI_SeekToLast_def
  WBWI_Next_def WBWI_Prev_def WBWI_Valid_def WBWI_Entry_def MatchesKey_def sl_Seek_def
  compare_entries_def is_min_in_cf_def kFlagMinInCf_def kMaxSizet_def entry_key_def
  data_slice_def CompareKey_def cur_valid_def cur_next_def cur_prev_def cur_last_def
  GetEntryFromDataOffset_def fresh_outs_def tag_to_type_def promoted_def ok_def
  scan_round_def scan_switch_def MergeKey_def Let_def

text \<open>
  A batch whose one record is \<open>Put(k, 10)\<close> in the column family with the largest id,
  \<open>4294967295\<close>, and a handle of that column family.
\<close>

definition example_last_cf :: "ColumnFamilyHandle option" where
  "example_last_cf = Some \<lparr>cf_id = 4294967295, merge_operator = Some adding_operator\<rparr>"

definition example_last_data :: Slice where
  "example_last_data = example_header @ [5, 107, 10]"

definition example_last_batch :: WriteBatchWithIndex where
  "example_last_batch =
     \<lparr>wbwi_write_batch = example_last_data,
      wbwi_skip_list = [index_entry 12 4294967295 13 1],
      wbwi_comparator =
        \<lparr>default_comparator = bytewise, cf_comparators = [],
         write_batch = example_last_data\<rparr>\<rparr>"

lemmas last_defs = example_last_cf_def example_last_data_def example_last_batch_def

section \<open>The precedence of the delta\<close>

text \<open>
  Base and delta are in key order, each key once, and both sub-iterators are ok. For a
  key that the base and the delta both hold (and that is below \<open>iterate_upper_bound\<close>
  when that is set), the forward scan, \<open>SeekToFirst\<close> and then \<open>Next\<close> as long as the
  iterator is valid: returns the key with the delta's value, and with no other value, when
  the delta record is a \<open>Put\<close>; does not return the key at all when the delta record is
  a \<open>Delete\<close> or a \<open>SingleDelete\<close>.
\<close>

lemma forward_scan_delta_precedence:
  assumes "sorted_wrt (<) (map fst (b_items (m_base_iterator it)))"
    and "sorted_wrt (<) (map we_key (d_items (m_delta_iterator it)))"
    and "b_status (m_base_iterator it) = OK" and "d_status (m_delta_iterator it) = OK"
    and "(k, vb) \<in> set (b_items (m_base_iterator it))"
    and "e \<in> set (d_items (m_delta_iterator it))" and "we_key e = k"
    and "\<forall>u. ro_upper it = Some u \<longrightarrow> k < u"
  shows "(we_type e = kPutRecord \<longrightarrow>
            (k, we_value e) \<in> set (forward_scan it)
            \<and> (\<forall>v. (k, v) \<in> set (forward_scan it) \<longrightarrow> v = we_value e))
       \<and> (we_type e = kDeleteRecord \<or> we_type e = kSingleDeleteRecord \<longrightarrow>
            k \<notin> fst ` set (forward_scan it))"
proof -
  have scan: "forward_scan it = merge_fwd (below_base_upper it) (below_delta_upper it)"
    by (rule forward_scan_merge [OF assms(3,4)])
  have sb: "sorted_wrt (<) (map fst (below_base_upper it))"
    unfolding below_base_upper_def by (rule sorted_takeWhile_map [OF assms(1)])
  have sd: "sorted_wrt (<) (map we_key (below_delta_upper it))"
    unfolding below_delta_upper_def by (rule sorted_takeWhile_map [OF assms(2)])
  have below: "delta_below_upper it (we_key e)"
    using assms(7,8) by (simp add: delta_below_upper_def split: option.splits)
  have closed: "\<And>a b. a < b \<Longrightarrow> delta_below_upper it b \<Longrightarrow> delta_below_upper it a"
    by (auto simp: delta_below_upper_def split: option.splits)
  have e: "e \<in> set (below_delta_upper it)"
    unfolding below_delta_upper_def
    by (rule sorted_takeWhile_mem [where P = "delta_below_upper it" and f = we_key,
        OF assms(2,6) below closed])
  note shadow = merge_fwd_shadow [OF sb sd _ e assms(7)]
  show ?thesis
  proof (intro conjI impI allI)
    assume "we_type e = kPutRecord"
    then have "\<not> is_tombstone e" by (simp add: is_tombstone_def)
    from merge_fwd_delta [OF e this] assms(7)
    show "(k, we_value e) \<in> set (forward_scan it)" by (simp add: scan)
  next
    fix v
    assume "(k, v) \<in> set (forward_scan it)"
    with shadow [of v] show "v = we_value e" by (simp add: scan)
  next
    assume t: "we_type e = kDeleteRecord \<or> we_type e = kSingleDeleteRecord"
    show "k \<notin> fst ` set (forward_scan it)"
    proof
      assume "k \<in> fst ` set (forward_scan it)"
      then obtain v where "(k, v) \<in> set (forward_scan it)" by auto
      with shadow [of v] t show False by (simp add: scan is_tombstone_def)
    qed
  qed
qed

lemma example_S1_scan: "forward_scan example_S1 = [(1, 1), (2, 20), (3, 3)]"
  by code_simp

lemma example_S2_scan: "forward_scan example_S2 = [(1, 1), (3, 3)]"
  by code_simp

lemma example_S1_precedence:
  "sorted_wrt (<) (map fst (b_items (m_base_iterator example_S1)))
   \<and> sorted_wrt (<) (map we_key (d_items (m_delta_iterator example_S1)))
   \<and> b_status (m_base_iterator example_S1) = OK \<and> d_status (m_delta_iterator example_S1) = OK
   \<and> (2, 2) \<in> set (b_items (m_base_iterator example_S1))
   \<and> PutEntry 2 20 \<in> set (d_items (m_delta_iterator example_S1))
   \<and> we_key (PutEntry 2 20) = 2 \<and> ro_upper example_S1 = None
   \<and> we_type (PutEntry 2 20) = kPutRecord
   \<and> (2, 20) \<in> set (forward_scan example_S1)
   \<and> (2, 2) \<notin> set (forward_scan example_S1)"
proof -
  have h1: "sorted_wrt (<) (map fst (b_items (m_base_iterator example_S1)))"
    and h2: "sorted_wrt (<) (map we_key (d_items (m_delta_iterator example_S1)))"
    and h3: "b_status (m_base_iterator example_S1) = OK"
    and h4: "d_status (m_delta_iterator example_S1) = OK"
    and h5: "(2, 2) \<in> set (b_items (m_base_iterator example_S1))"
    and h6: "PutEntry 2 20 \<in> set (d_items (m_delta_iterator example_S1))"
    and h7: "we_key (PutEntry 2 20) = 2"
    and r: "ro_upper example_S1 = None"
    and p: "we_type (PutEntry 2 20) = kPutRecord"
    by (simp_all add: example_S1_def new_BaseDeltaIterator_def example_base_def
        example_delta_def PutEntry_def ro_upper_def)
  from r have h8: "\<forall>u. ro_upper example_S1 = Some u \<longrightarrow> 2 < u" by simp
  have c: "we_type (PutEntry 2 20) = kPutRecord \<longrightarrow>
            (2, we_value (PutEntry 2 20)) \<in> set (forward_scan example_S1)
            \<and> (\<forall>v. (2, v) \<in> set (forward_scan example_S1) \<longrightarrow> v = we_value (PutEntry 2 20))"
    using forward_scan_delta_precedence [OF h1 h2 h3 h4 h5 h6 h7 h8] by (rule conjunct1)
  from c p have d: "(2, we_value (PutEntry 2 20)) \<in> set (forward_scan example_S1)
            \<and> (\<forall>v. (2, v) \<in> set (forward_scan example_S1) \<longrightarrow> v = we_value (PutEntry 2 20))"
    by (rule mp)
  from d have "(2, we_value (PutEntry 2 20)) \<in> set (forward_scan example_S1)"
    by (rule conjunct1)
  then have a: "(2, 20) \<in> set (forward_scan example_S1)" by (simp add: PutEntry_def)
  from d have "\<forall>v. (2, v) \<in> set (forward_scan example_S1) \<longrightarrow> v = we_value (PutEntry 2 20)"
    by (rule conjunct2)
  then have "(2, 2) \<in> set (forward_scan example_S1) \<longrightarrow> (2::nat) = we_value (PutEntry 2 20)"
    by (rule spec)
  then have b: "(2, 2) \<notin> set (forward_scan example_S1)" by (simp add: PutEntry_def)
  show ?thesis by (intro conjI h1 h2 h3 h4 h5 h6 h7 r p a b)
qed

text \<open>
  C1. The delta does not take precedence on every scan. With base \<open>a, b, c\<close> and delta
  \<open>Delete(a)\<close>, \<open>SeekToFirst\<close> and then \<open>Prev\<close> return the key \<open>a\<close> with the value of
  the base, although the delta deletes it. With base \<open>a, b, c\<close> and delta \<open>Delete(c)\<close>,
  \<open>SeekToLast\<close> and then \<open>Next\<close> return the key \<open>c\<close> with the value of the base
  likewise.
\<close>

theorem C1_deleted_key_with_base_value:
  "(1, 1) \<in> set (b_items (m_base_iterator example_deleted_first))
   \<and> DeleteEntry 1 \<in> set (d_items (m_delta_iterator example_deleted_first))
   \<and> Valid (run_ops [OpSeekToFirst, OpPrev] example_deleted_first)
   \<and> key (run_ops [OpSeekToFirst, OpPrev] example_deleted_first) = 1
   \<and> val (run_ops [OpSeekToFirst, OpPrev] example_deleted_first) = 1
   \<and> (3, 3) \<in> set (b_items (m_base_iterator example_deleted_last))
   \<and> DeleteEntry 3 \<in> set (d_items (m_delta_iterator example_deleted_last))
   \<and> Valid (run_ops [OpSeekToLast, OpNext] example_deleted_last)
   \<and> key (run_ops [OpSeekToLast, OpNext] example_deleted_last) = 3
   \<and> val (run_ops [OpSeekToLast, OpNext] example_deleted_last) = 3"
  by code_simp

section \<open>Bounds\<close>

text \<open>
  What an operation leaves as it is: the entries of both sides, what the base iterator
  reports about its bounds, and the read options.
\<close>

definition static_part ::
  "('k, 'v) BaseDeltaIterator
     \<Rightarrow> ('k \<times> 'v) list \<times> bool \<times> 'k option \<times> 'k option \<times> ('k, 'v) WriteEntry list
         \<times> 'k ReadOptions option" where
  "static_part it =
     (b_items (m_base_iterator it), b_checks_upper (m_base_iterator it),
      b_upper (m_base_iterator it), b_lower (m_base_iterator it),
      d_items (m_delta_iterator it), m_read_options it)"

lemma static_flags [simp]:
  "static_part (it\<lparr>m_equal_keys := e\<rparr>) = static_part it"
  "static_part (it\<lparr>m_current_at_base := c\<rparr>) = static_part it"
  "static_part (it\<lparr>m_status := s\<rparr>) = static_part it"
  "static_part (it\<lparr>m_progress := p\<rparr>) = static_part it"
  by (simp_all add: static_part_def)

lemma static_Advance [simp]:
  "static_part (AdvanceBase it) = static_part it" "static_part (AdvanceDelta it) = static_part it"
  by (simp_all add: static_part_def AdvanceBase_def AdvanceDelta_def b_Next_def b_Prev_def
      d_Next_def d_Prev_def)

lemma static_round:
  assumes "UpdateCurrent_round it = Return r \<or> UpdateCurrent_round it = Again r"
  shows "static_part r = static_part it"
  using assms
  by (auto simp: UpdateCurrent_round_def Let_def split: if_splits)

lemma static_loop [simp]: "static_part (UpdateCurrent_loop it) = static_part it"
proof (induction it rule: UpdateCurrent_loop.induct)
  case (1 it)
  show ?case
  proof (cases "UpdateCurrent_round it")
    case (Return r)
    then show ?thesis
      using static_round [of it r] by (simp add: UpdateCurrent_loop.simps [of it])
  next
    case (Again n)
    then show ?thesis
      using static_round [of it n] 1 [OF Again]
      by (simp add: UpdateCurrent_loop.simps [of it])
  qed
qed

lemma static_UpdateCurrent [simp]: "static_part (UpdateCurrent it) = static_part it"
  by (simp add: UpdateCurrent_def)

lemma static_moved:
  assumes "b_items b = b_items (m_base_iterator it)"
    and "b_checks_upper b = b_checks_upper (m_base_iterator it)"
    and "b_upper b = b_upper (m_base_iterator it)" and "b_lower b = b_lower (m_base_iterator it)"
    and "d_items d = d_items (m_delta_iterator it)"
  shows "static_part (it\<lparr>m_base_iterator := b, m_delta_iterator := d\<rparr>) = static_part it"
  using assms by (simp add: static_part_def)

lemma static_moved_base:
  assumes "b_items b = b_items (m_base_iterator it)"
    and "b_checks_upper b = b_checks_upper (m_base_iterator it)"
    and "b_upper b = b_upper (m_base_iterator it)" and "b_lower b = b_lower (m_base_iterator it)"
  shows "static_part (it\<lparr>m_base_iterator := b\<rparr>) = static_part it"
  using assms by (simp add: static_part_def)

lemma static_moved_delta:
  assumes "d_items d = d_items (m_delta_iterator it)"
  shows "static_part (it\<lparr>m_delta_iterator := d\<rparr>) = static_part it"
  using assms by (simp add: static_part_def)

lemma static_SeekToFirst [simp]: "static_part (SeekToFirst it) = static_part it"
  unfolding SeekToFirst_def static_UpdateCurrent
  by (simp add: static_part_def b_SeekToFirst_def d_SeekToFirst_def)

lemma static_Seek [simp]: "static_part (Seek k it) = static_part it"
  unfolding Seek_def static_UpdateCurrent
  by (simp add: static_part_def b_Seek_def d_Seek_def)

lemma static_SeekForPrev [simp]: "static_part (SeekForPrev k it) = static_part it"
  unfolding SeekForPrev_def static_UpdateCurrent
  by (simp add: static_part_def b_SeekForPrev_def d_SeekForPrev_def)

lemma static_SeekToLast [simp]: "static_part (SeekToLast it) = static_part it"
  unfolding SeekToLast_def Let_def static_UpdateCurrent
  by (simp add: static_part_def b_SeekToLast_def b_Seek_def b_Prev_def d_SeekToLast_def d_Seek_def
      d_Prev_def split: option.splits)

lemma static_Next [simp]: "static_part (Next it) = static_part it"
  unfolding Next_def Advance_def Let_def
  by (simp add: static_moved_base static_moved_delta b_SeekToFirst_def d_SeekToFirst_def)

lemma static_Prev [simp]: "static_part (Prev it) = static_part it"
  unfolding Prev_def Advance_def Let_def
  by (simp add: static_moved_base static_moved_delta b_SeekToLast_def d_SeekToLast_def)

lemma static_apply_op [simp]: "static_part (apply_op opr it) = static_part it"
  by (cases opr) simp_all

lemma static_run_ops [simp]: "static_part (run_ops oprs it) = static_part it"
  by (induction oprs arbitrary: it) simp_all

text \<open>
  The upper bound in force on the base side: the one the iterator checks, unless the base
  iterator reports that it checks its upper bound itself; then it is the base iterator's
  own. A base iterator that checks its upper bound itself shows no key at or above it.
\<close>

definition base_upper_in_force :: "('k, 'v) BaseDeltaIterator \<Rightarrow> 'k option" where
  "base_upper_in_force it =
     (if b_checks_upper (m_base_iterator it) then b_upper (m_base_iterator it)
      else base_iterator_upper_bound it)"

definition upper_in_force :: "('k, 'v) BaseDeltaIterator \<Rightarrow> 'k option" where
  "upper_in_force it = (if m_current_at_base it then base_upper_in_force it else ro_upper it)"

definition lower_in_force :: "('k, 'v) BaseDeltaIterator \<Rightarrow> 'k option" where
  "lower_in_force it =
     (if m_current_at_base it then base_iterator_lower_bound it else ro_lower it)"

definition base_keeps_upper :: "('k::linorder, 'v) BaseIter \<Rightarrow> bool" where
  "base_keeps_upper b =
     (case b_upper b of
        None \<Rightarrow> True
      | Some u \<Rightarrow> \<not> b_checks_upper b \<or> list_all (\<lambda>e. fst e < u) (b_items b))"

definition in_key_order :: "('k::linorder, 'v) BaseDeltaIterator \<Rightarrow> bool" where
  "in_key_order it =
     (sorted (map fst (b_items (m_base_iterator it)))
      \<and> sorted (map we_key (d_items (m_delta_iterator it)))
      \<and> base_keeps_upper (m_base_iterator it))"

lemma static_bounds:
  assumes "static_part a = static_part b"
  shows "base_upper_in_force a = base_upper_in_force b" and "ro_upper a = ro_upper b"
    and "ro_lower a = ro_lower b"
    and "base_iterator_upper_bound a = base_iterator_upper_bound b"
    and "base_iterator_lower_bound a = base_iterator_lower_bound b"
    and "in_key_order a = in_key_order b"
  using assms
  by (auto simp: static_part_def base_upper_in_force_def ro_upper_def ro_lower_def
      base_iterator_upper_bound_def base_iterator_lower_bound_def in_key_order_def
      base_keeps_upper_def split: option.splits)

text \<open>A position that is not valid, or that holds a key below a bound.\<close>

definition pos_below :: "('a \<Rightarrow> 'k::linorder) \<Rightarrow> 'a list \<Rightarrow> cursor \<Rightarrow> 'k option \<Rightarrow> bool" where
  "pos_below kf xs p U =
     (case p of
        None \<Rightarrow> True
      | Some i \<Rightarrow> i < length xs \<and> (case U of None \<Rightarrow> True | Some u \<Rightarrow> kf (xs ! i) < u))"

lemma pos_below_prev:
  assumes "sorted (map kf xs)" and "pos_below kf xs p U"
  shows "pos_below kf xs (cur_prev xs p) U"
proof (cases p)
  case None
  then show ?thesis by (simp add: cur_prev_def pos_below_def)
next
  case (Some i)
  with assms(2) have i: "i < length xs" by (simp add: pos_below_def)
  show ?thesis
  proof (cases "i = 0")
    case True
    with Some show ?thesis by (simp add: cur_prev_def pos_below_def)
  next
    case False
    with i have "kf (xs ! (i - 1)) \<le> kf (xs ! i)"
      using sorted_nth_mono [OF assms(1), of "i - 1" i] by simp
    with False i Some assms(2) show ?thesis
      by (auto simp: cur_prev_def pos_below_def split: option.splits)
  qed
qed

lemma pos_below_last:
  assumes "\<forall>x\<in>set xs. \<forall>u. U = Some u \<longrightarrow> kf x < u"
  shows "pos_below kf xs (cur_last xs) U"
  using assms by (auto simp: pos_below_def cur_last_def split: option.splits)

lemma pos_below_seek:
  "pos_below kf xs
     (if cur_valid xs (cur_seek kf xs u) then cur_prev xs (cur_seek kf xs u) else cur_last xs)
     (Some u)"
proof -
  let ?n = "length (takeWhile (\<lambda>x. kf x < u) xs)"
  have le: "?n \<le> length xs" by (rule length_takeWhile_le)
  have pre: "kf (xs ! j) < u" if "j < ?n" for j
    using that nth_mem [of j "takeWhile (\<lambda>x. kf x < u) xs"]
    by (auto simp: takeWhile_nth dest: set_takeWhileD)
  show ?thesis
  proof (cases "?n < length xs")
    case True
    then show ?thesis
      using pre [of "?n - 1"]
      by (auto simp: cur_seek_def cur_valid_def cur_prev_def pos_below_def Let_def)
  next
    case False
    with le have "?n = length xs" by simp
    then have "kf (xs ! j) < u" if "j < length xs" for j using pre [of j] that by simp
    then have "\<forall>x\<in>set xs. kf x < u" by (auto simp: in_set_conv_nth)
    with False show ?thesis
      using pos_below_last [of xs "Some u" kf]
      by (simp add: cur_seek_def cur_valid_def Let_def)
  qed
qed

lemma pos_below_seek_for_prev:
  assumes "\<forall>u. U = Some u \<longrightarrow> k < u"
  shows "pos_below kf xs (cur_seek_for_prev kf xs k) U"
proof -
  let ?n = "length (takeWhile (\<lambda>x. kf x \<le> k) xs)"
  have le: "?n \<le> length xs" by (rule length_takeWhile_le)
  have pre: "kf (xs ! j) \<le> k" if "j < ?n" for j
    using that nth_mem [of j "takeWhile (\<lambda>x. kf x \<le> k) xs"]
    by (auto simp: takeWhile_nth dest: set_takeWhileD)
  show ?thesis
  proof (cases "?n = 0")
    case True
    then show ?thesis by (simp add: cur_seek_for_prev_def pos_below_def Let_def)
  next
    case False
    then have "?n - 1 < ?n" by simp
    from this le have "?n - 1 < length xs" by (rule less_le_trans)
    moreover have "kf (xs ! (?n - 1)) \<le> k" using pre [of "?n - 1"] False by simp
    ultimately show ?thesis
      using False assms
      by (auto simp: cur_seek_for_prev_def pos_below_def Let_def split: option.splits)
  qed
qed

text \<open>
  A backward scan below the upper bound: the iterator moves backward and each side is at a
  key below its upper bound, or at no key.
\<close>

definition backward_below :: "('k::linorder, 'v) BaseDeltaIterator \<Rightarrow> bool" where
  "backward_below it =
     (\<not> IsMovingForward it
      \<and> pos_below fst (b_items (m_base_iterator it)) (b_pos (m_base_iterator it))
            (base_upper_in_force it)
      \<and> pos_below we_key (d_items (m_delta_iterator it)) (d_pos (m_delta_iterator it))
            (ro_upper it))"

lemma base_upper_in_force_flags [simp]:
  fixes it :: "('k::linorder, 'v) BaseDeltaIterator"
  shows "base_upper_in_force (it\<lparr>m_equal_keys := e\<rparr>) = base_upper_in_force it"
    and "base_upper_in_force (it\<lparr>m_current_at_base := c\<rparr>) = base_upper_in_force it"
    and "base_upper_in_force (it\<lparr>m_status := s\<rparr>) = base_upper_in_force it"
    and "base_upper_in_force (it\<lparr>m_progress := p\<rparr>) = base_upper_in_force it"
  by (rule static_bounds(1), simp)+

lemma ro_upper_progress [simp]: "ro_upper (it\<lparr>m_progress := p\<rparr>) = ro_upper it"
  by (simp add: ro_upper_def)

lemma backward_below_flags [simp]:
  "backward_below (it\<lparr>m_equal_keys := e\<rparr>) = backward_below it"
  "backward_below (it\<lparr>m_current_at_base := c\<rparr>) = backward_below it"
  "backward_below (it\<lparr>m_status := s\<rparr>) = backward_below it"
  by (simp_all add: backward_below_def)

lemma backward_below_BACKWARD [simp]:
  "\<not> IsMovingForward it \<Longrightarrow> backward_below (it\<lparr>m_progress := BACKWARD\<rparr>) = backward_below it"
  by (simp add: backward_below_def) (simp add: IsMovingForward_def)

lemma backward_below_Advance:
  assumes "in_key_order it" and "backward_below it"
  shows "backward_below (AdvanceBase it)" and "backward_below (AdvanceDelta it)"
proof -
  from assms(2) have b: "\<not> IsMovingForward it" by (simp add: backward_below_def)
  have ub: "base_upper_in_force (AdvanceBase it) = base_upper_in_force it"
    "base_upper_in_force (AdvanceDelta it) = base_upper_in_force it"
    by (rule static_bounds(1), simp)+
  have ud: "ro_upper (AdvanceBase it) = ro_upper it" "ro_upper (AdvanceDelta it) = ro_upper it"
    by (rule static_bounds(2), simp)+
  from b have mb: "m_base_iterator (AdvanceBase it) = b_Prev (m_base_iterator it)"
    "m_delta_iterator (AdvanceBase it) = m_delta_iterator it"
    "m_base_iterator (AdvanceDelta it) = m_base_iterator it"
    "m_delta_iterator (AdvanceDelta it) = d_Prev (m_delta_iterator it)"
    by (simp_all add: AdvanceBase_def AdvanceDelta_def)
  from assms have pb:
    "pos_below fst (b_items (m_base_iterator it))
       (cur_prev (b_items (m_base_iterator it)) (b_pos (m_base_iterator it)))
       (base_upper_in_force it)"
    by (intro pos_below_prev) (simp_all add: in_key_order_def backward_below_def)
  from assms have pd:
    "pos_below we_key (d_items (m_delta_iterator it))
       (cur_prev (d_items (m_delta_iterator it)) (d_pos (m_delta_iterator it)))
       (ro_upper it)"
    by (intro pos_below_prev) (simp_all add: in_key_order_def backward_below_def)
  show "backward_below (AdvanceBase it)"
    unfolding backward_below_def ub ud mb forward_Advance
    using assms(2) pb by (simp add: backward_below_def b_Prev_def)
  show "backward_below (AdvanceDelta it)"
    unfolding backward_below_def ub ud mb forward_Advance
    using assms(2) pd by (simp add: backward_below_def d_Prev_def)
qed

lemma in_key_order_flags [simp]:
  "in_key_order (it\<lparr>m_equal_keys := e\<rparr>) = in_key_order it"
  "in_key_order (it\<lparr>m_current_at_base := c\<rparr>) = in_key_order it"
  "in_key_order (it\<lparr>m_status := s\<rparr>) = in_key_order it"
  "in_key_order (it\<lparr>m_progress := p\<rparr>) = in_key_order it"
  by (simp_all add: in_key_order_def)

lemma in_key_order_Advance [simp]:
  "in_key_order (AdvanceBase it) = in_key_order it"
  "in_key_order (AdvanceDelta it) = in_key_order it"
  by (rule static_bounds(6), simp)+

lemma backward_below_round:
  assumes "in_key_order it" and "backward_below it"
    and "UpdateCurrent_round it = Return r \<or> UpdateCurrent_round it = Again r"
  shows "backward_below r"
proof -
  note a = backward_below_Advance [of "it\<lparr>m_equal_keys := e\<rparr>" for e, simplified, OF assms(1,2)]
  have ab: "backward_below (AdvanceBase (AdvanceDelta (it\<lparr>m_equal_keys := e\<rparr>)))" for e
    by (rule backward_below_Advance(1)) (simp_all add: assms(1) a)
  from assms(3) show ?thesis
    using assms(2) a ab
    by (auto simp: UpdateCurrent_round_def Let_def split: if_splits)
qed

lemma backward_below_loop:
  "in_key_order it \<Longrightarrow> backward_below it \<Longrightarrow> backward_below (UpdateCurrent_loop it)"
proof (induction it rule: UpdateCurrent_loop.induct)
  case (1 it)
  show ?case
  proof (cases "UpdateCurrent_round it")
    case (Return r)
    then show ?thesis
      using backward_below_round [OF 1(2,3), of r] by (simp add: UpdateCurrent_loop.simps [of it])
  next
    case (Again n)
    have "in_key_order n"
      using static_bounds(6) [OF static_round [of it n]] Again 1(2) by simp
    with Again show ?thesis
      using backward_below_round [OF 1(2,3), of n] 1(1) [OF Again]
      by (simp add: UpdateCurrent_loop.simps [of it])
  qed
qed

lemma backward_below_UpdateCurrent:
  "in_key_order it \<Longrightarrow> backward_below it \<Longrightarrow> backward_below (UpdateCurrent it)"
  unfolding UpdateCurrent_def by (rule backward_below_loop) simp_all

text \<open>
  \<open>SeekToLast\<close> starts such a scan: it puts each side below its upper bound before
  \<open>UpdateCurrent\<close> runs. \<open>Prev\<close> keeps the scan going.
\<close>

lemma backward_below_SeekToLast:
  assumes "in_key_order it"
  shows "backward_below (SeekToLast it)"
proof -
  let ?b = "m_base_iterator it" and ?d = "m_delta_iterator it"
  define base1 where "base1 =
            (case base_iterator_upper_bound it of
               Some base_upper_bound \<Rightarrow>
                 if \<not> b_checks_upper ?b then
                   (let b = b_Seek base_upper_bound ?b
                    in if b_Valid b then b_Prev b else b_SeekToLast b)
                 else b_SeekToLast ?b
             | None \<Rightarrow> b_SeekToLast ?b)"
  define delta1 where "delta1 =
            (case ro_upper it of
               Some upper \<Rightarrow>
                 (let d = d_Seek upper ?d
                  in if d_Valid d then d_Prev d else d_SeekToLast d)
             | None \<Rightarrow> d_SeekToLast ?d)"
  define x where
    "x = it\<lparr>m_progress := SEEK_TO_LAST, m_base_iterator := base1, m_delta_iterator := delta1\<rparr>"
  have s: "SeekToLast it = UpdateCurrent x"
    by (simp add: SeekToLast_def Let_def x_def base1_def delta1_def
        cong: option.case_cong if_cong)
  have bi: "b_items base1 = b_items ?b" "b_checks_upper base1 = b_checks_upper ?b"
    "b_upper base1 = b_upper ?b" "b_lower base1 = b_lower ?b"
    by (simp_all add: base1_def b_Seek_def b_Prev_def b_SeekToLast_def Let_def
        split: option.splits)
  have di: "d_items delta1 = d_items ?d"
    by (simp add: delta1_def d_Seek_def d_Prev_def d_SeekToLast_def Let_def split: option.splits)
  have st: "static_part x = static_part it"
    by (simp add: static_part_def x_def bi di)
  have ko: "in_key_order x" using static_bounds(6) [OF st] assms by simp
  have pb: "pos_below fst (b_items ?b) (b_pos base1) (base_upper_in_force it)"
  proof (cases "b_checks_upper ?b")
    case True
    then have b1: "b_pos base1 = cur_last (b_items ?b)"
      by (simp add: base1_def b_SeekToLast_def split: option.splits)
    from True assms have "\<forall>e\<in>set (b_items ?b). \<forall>u. b_upper ?b = Some u \<longrightarrow> fst e < u"
      by (fastforce simp: in_key_order_def base_keeps_upper_def list_all_iff)
    from pos_below_last [OF this] True b1 show ?thesis
      by (simp add: base_upper_in_force_def)
  next
    case False
    show ?thesis
    proof (cases "base_iterator_upper_bound it")
      case None
      with False show ?thesis
        by (simp add: base1_def b_SeekToLast_def base_upper_in_force_def pos_below_last)
    next
      case (Some u)
      with False have "b_pos base1 =
        (if cur_valid (b_items ?b) (cur_seek fst (b_items ?b) u)
         then cur_prev (b_items ?b) (cur_seek fst (b_items ?b) u) else cur_last (b_items ?b))"
        by (simp add: base1_def b_Seek_def b_Valid_def b_Prev_def b_SeekToLast_def Let_def)
      with False Some show ?thesis
        using pos_below_seek [of fst "b_items ?b" u] by (simp add: base_upper_in_force_def)
    qed
  qed
  have pd: "pos_below we_key (d_items ?d) (d_pos delta1) (ro_upper it)"
  proof (cases "ro_upper it")
    case None
    then show ?thesis by (simp add: delta1_def d_SeekToLast_def pos_below_last)
  next
    case (Some u)
    then have "d_pos delta1 =
        (if cur_valid (d_items ?d) (cur_seek we_key (d_items ?d) u)
         then cur_prev (d_items ?d) (cur_seek we_key (d_items ?d) u) else cur_last (d_items ?d))"
      by (simp add: delta1_def d_Seek_def d_Valid_def d_Prev_def d_SeekToLast_def Let_def)
    with Some show ?thesis
      using pos_below_seek [of we_key "d_items ?d" u] by simp
  qed
  have ub: "base_upper_in_force x = base_upper_in_force it" "ro_upper x = ro_upper it"
    by (rule static_bounds(1) [OF st], rule static_bounds(2) [OF st])
  have "backward_below x"
    unfolding backward_below_def ub
    using pb pd by (simp add: x_def bi di IsMovingForward_def)
  from backward_below_UpdateCurrent [OF ko this] show ?thesis by (simp only: s)
qed

lemma backward_below_Prev:
  assumes "in_key_order it" and "backward_below it"
  shows "backward_below (Prev it)"
proof (cases "Valid it")
  case False
  with assms(2) show ?thesis by (simp add: Prev_invalid)
next
  case True
  from assms(2) have b: "\<not> IsMovingForward it" by (simp add: backward_below_def)
  let ?x = "it\<lparr>m_progress := BACKWARD\<rparr>"
  have x: "in_key_order ?x" "backward_below ?x" using assms b by simp_all
  have "backward_below
          (if m_equal_keys ?x then AdvanceDelta (AdvanceBase ?x)
           else if m_current_at_base ?x then AdvanceBase ?x else AdvanceDelta ?x)"
    using backward_below_Advance [OF x]
      backward_below_Advance(2) [of "AdvanceBase ?x"] x by simp
  moreover have "in_key_order
          (if m_equal_keys ?x then AdvanceDelta (AdvanceBase ?x)
           else if m_current_at_base ?x then AdvanceBase ?x else AdvanceDelta ?x)"
    using x(1) by simp
  ultimately have "backward_below (Advance ?x)"
    unfolding Advance_def by (intro backward_below_UpdateCurrent)
  with True b show ?thesis by (simp add: Prev_def Let_def)
qed

lemma in_key_order_run_ops [simp]: "in_key_order (run_ops oprs it) = in_key_order it"
  by (rule static_bounds(6)) simp

lemma in_key_order_SeekToLast [simp]: "in_key_order (SeekToLast it) = in_key_order it"
  by (rule static_bounds(6)) simp

lemma backward_below_Prevs:
  "in_key_order it \<Longrightarrow> backward_below it \<Longrightarrow> backward_below (run_ops (replicate n OpPrev) it)"
proof (induction n arbitrary: it)
  case 0
  then show ?case by simp
next
  case (Suc n)
  have "in_key_order (Prev it)" using Suc.prems(1) static_bounds(6) [of "Prev it" it] by simp
  from Suc.IH [OF this backward_below_Prev [OF Suc.prems]] show ?case by simp
qed

lemma backward_below_key:
  assumes "backward_below it" and "Valid it"
  shows "\<forall>u. upper_in_force it = Some u \<longrightarrow> Compare (key it) u < 0"
  using assms
  by (auto simp: backward_below_def Valid_def BaseValid_def DeltaValid_def b_Valid_def
      d_Valid_def cur_valid_def pos_below_def upper_in_force_def key_def b_key_def d_Entry_def
      Compare_def split: if_splits option.splits)

text \<open>\<open>SeekForPrev\<close> to a key below the upper bounds starts such a scan as well.\<close>

definition below_bounds :: "'k::linorder \<Rightarrow> ('k, 'v) BaseDeltaIterator \<Rightarrow> bool" where
  "below_bounds k it =
     ((case base_upper_in_force it of None \<Rightarrow> True | Some u \<Rightarrow> k < u)
      \<and> (case ro_upper it of None \<Rightarrow> True | Some u \<Rightarrow> k < u))"

lemma backward_below_SeekForPrev:
  assumes "in_key_order it" and "below_bounds k it"
  shows "backward_below (SeekForPrev k it)"
proof -
  let ?x = "it\<lparr>m_progress := SEEK_FOR_PREV,
               m_base_iterator := b_SeekForPrev k (m_base_iterator it),
               m_delta_iterator := d_SeekForPrev k (m_delta_iterator it)\<rparr>"
  have st: "static_part ?x = static_part it"
    by (simp add: static_part_def b_SeekForPrev_def d_SeekForPrev_def)
  have ko: "in_key_order ?x" using static_bounds(6) [OF st] assms(1) by simp
  have ub: "base_upper_in_force ?x = base_upper_in_force it" "ro_upper ?x = ro_upper it"
    by (rule static_bounds(1) [OF st], rule static_bounds(2) [OF st])
  from assms(2) have k: "\<forall>u. base_upper_in_force it = Some u \<longrightarrow> k < u"
    "\<forall>u. ro_upper it = Some u \<longrightarrow> k < u"
    by (auto simp: below_bounds_def split: option.splits)
  have
    "pos_below fst (b_items (m_base_iterator it))
       (cur_seek_for_prev fst (b_items (m_base_iterator it)) k) (base_upper_in_force it)"
    "pos_below we_key (d_items (m_delta_iterator it))
       (cur_seek_for_prev we_key (d_items (m_delta_iterator it)) k) (ro_upper it)"
    by (rule pos_below_seek_for_prev [OF k(1)], rule pos_below_seek_for_prev [OF k(2)])
  then have "backward_below ?x"
    unfolding backward_below_def ub
    by (simp add: b_SeekForPrev_def d_SeekForPrev_def IsMovingForward_def)
  from backward_below_UpdateCurrent [OF ko this] show ?thesis by (simp only: SeekForPrev_def)
qed

text \<open>The bounds in force at the current position.\<close>

definition below_upper :: "('k::linorder, 'v) BaseDeltaIterator \<Rightarrow> bool" where
  "below_upper it =
     (case upper_in_force it of None \<Rightarrow> True | Some u \<Rightarrow> Compare (key it) u < 0)"

definition above_lower :: "('k::linorder, 'v) BaseDeltaIterator \<Rightarrow> bool" where
  "above_lower it =
     (case lower_in_force it of None \<Rightarrow> True | Some l \<Rightarrow> Compare (key it) l \<ge> 0)"

text \<open>
  While the iterator moves forward, \<open>BaseValid\<close> and \<open>DeltaValid\<close> check the upper
  bound; while it moves backward, the lower bound.
\<close>

lemma forward_below_upper:
  assumes "base_keeps_upper (m_base_iterator it)" and "Valid it" and "IsMovingForward it"
  shows "below_upper it"
proof (cases "m_current_at_base it \<and> b_checks_upper (m_base_iterator it)")
  case False
  with assms(2,3) show ?thesis
    by (auto simp: below_upper_def upper_in_force_def base_upper_in_force_def Valid_def
        BaseValid_def DeltaValid_def BaseIsWithinBounds_def DeltaIsWithinBounds_def key_def
        split: if_splits option.splits)
next
  case True
  with assms(2) have "b_Valid (m_base_iterator it)" by (simp add: Valid_def BaseValid_def split: if_splits)
  then have "b_items (m_base_iterator it) ! the (b_pos (m_base_iterator it))
               \<in> set (b_items (m_base_iterator it))"
    by (auto simp: b_Valid_def cur_valid_def split: option.splits)
  with assms(1) True show ?thesis
    by (auto simp: below_upper_def upper_in_force_def base_upper_in_force_def key_def b_key_def
        base_keeps_upper_def list_all_iff Compare_def split: option.splits)
qed

lemma backward_above_lower:
  assumes "Valid it" and "\<not> IsMovingForward it"
    and "\<not> (m_current_at_base it \<and> b_checks_upper (m_base_iterator it))"
  shows "above_lower it"
  using assms
  by (auto simp: above_lower_def lower_in_force_def Valid_def BaseValid_def DeltaValid_def
      BaseIsWithinBounds_def DeltaIsWithinBounds_def key_def
      split: if_splits option.splits)

lemma backward_scan_below_upper:
  assumes "backward_below it" and "Valid it"
  shows "below_upper it"
  using backward_below_key [OF assms] by (simp add: below_upper_def split: option.splits)

lemma base_static_run_ops:
  "b_checks_upper (m_base_iterator (run_ops oprs it)) = b_checks_upper (m_base_iterator it)"
  "base_keeps_upper (m_base_iterator (run_ops oprs it)) = base_keeps_upper (m_base_iterator it)"
  using static_run_ops [of oprs it]
  by (auto simp: static_part_def base_keeps_upper_def split: option.splits)

section \<open>Properties of the merging iterator\<close>

text \<open>
  C5. After a seek, \<open>Next\<close> or \<open>Prev\<close> that leaves the iterator valid with both sides
  valid (\<open>BaseValid\<close> and \<open>DeltaValid\<close>, the validity the iterator itself uses) and
  status ok, the two sides are ordered as the spec says: moving forward the current side
  holds the smaller or equal key, moving backward the larger or equal key, and
  \<open>equal_keys_\<close> holds exactly when the two keys are equal.
\<close>

theorem C5_ordering_after_repositioning:
  assumes "Valid (apply_op opr it)" and "BaseValid (apply_op opr it)"
    and "DeltaValid (apply_op opr it)" and "ok (status (apply_op opr it))"
  shows "ordering_inv (apply_op opr it)"
proof -
  from apply_op_is_UpdateCurrent [OF assms(1)]
  obtain x where x: "apply_op opr it = UpdateCurrent x" ..
  show ?thesis
    using assms(2,3) UpdateCurrent_loop_inv [of "x\<lparr>m_status := OK\<rparr>"]
    unfolding x UpdateCurrent_def by simp
qed

theorem C5_ordering_after_repositioning_witness:
  "Valid (apply_op OpSeekToFirst example_both_sides)
   \<and> BaseValid (apply_op OpSeekToFirst example_both_sides)
   \<and> DeltaValid (apply_op OpSeekToFirst example_both_sides)
   \<and> ok (status (apply_op OpSeekToFirst example_both_sides))
   \<and> ordering_inv (apply_op OpSeekToFirst example_both_sides)"
proof -
  have h1: "Valid (apply_op OpSeekToFirst example_both_sides)" by code_simp
  have h2: "BaseValid (apply_op OpSeekToFirst example_both_sides)" by code_simp
  have h3: "DeltaValid (apply_op OpSeekToFirst example_both_sides)" by code_simp
  have h4: "ok (status (apply_op OpSeekToFirst example_both_sides))" by code_simp
  from C5_ordering_after_repositioning [OF h1 h2 h3 h4] h1 h2 h3 h4 show ?thesis by simp
qed

text \<open>
  C10. \<open>Next\<close> or \<open>Prev\<close> on an iterator that is not valid sets \<open>status_\<close> to
  \<open>NotSupported\<close>. Every seek after that sets \<open>status_\<close> back to ok, so that \<open>status()\<close>
  reports what the sub-iterators report, and the iterator can be valid again.
\<close>

theorem C10_seek_clears_NotSupported:
  assumes "\<not> Valid it0" and "is_seek opr"
  shows "m_status (Next it0) = NotSupported ''Next() on invalid iterator''
    \<and> m_status (Prev it0) = NotSupported ''Prev() on invalid iterator''
    \<and> m_status (apply_op opr (Next it0)) = OK
    \<and> m_status (apply_op opr (Prev it0)) = OK
    \<and> status (apply_op opr (Next it0)) = sub_status it0
    \<and> status (apply_op opr (Prev it0)) = sub_status it0
    \<and> (\<exists>it :: (nat, nat) BaseDeltaIterator.
           \<not> Valid it \<and> Valid (SeekToFirst (Next it)) \<and> Valid (SeekToFirst (Prev it)))"
proof -
  have n: "m_status (Next it0) = NotSupported ''Next() on invalid iterator''"
    using assms(1) by (simp add: Next_invalid)
  have p: "m_status (Prev it0) = NotSupported ''Prev() on invalid iterator''"
    using assms(1) by (simp add: Prev_invalid)
  have m: "m_status (apply_op opr (Next it0)) = OK \<and> m_status (apply_op opr (Prev it0)) = OK"
    using assms(2) by (simp add: seek_m_status)
  have s: "status (apply_op opr (Next it0)) = sub_status it0
        \<and> status (apply_op opr (Prev it0)) = sub_status it0"
    using assms
    by (simp add: status_when_ok seek_m_status seek_sub_status Next_invalid Prev_invalid)
  have "\<not> Valid example_both_sides \<and> Valid (SeekToFirst (Next example_both_sides))
        \<and> Valid (SeekToFirst (Prev example_both_sides))"
    by code_simp
  then have e: "\<exists>it :: (nat, nat) BaseDeltaIterator.
           \<not> Valid it \<and> Valid (SeekToFirst (Next it)) \<and> Valid (SeekToFirst (Prev it))"
    by blast
  from n p m s e show ?thesis by simp
qed

theorem C10_seek_clears_NotSupported_witness:
  "\<not> Valid example_both_sides \<and> is_seek (OpSeek (2::nat))
   \<and> m_status (Next example_both_sides) = NotSupported ''Next() on invalid iterator''
   \<and> m_status (apply_op (OpSeek 2) (Next example_both_sides)) = OK
   \<and> status (apply_op (OpSeek 2) (Next example_both_sides)) = OK
   \<and> Valid (apply_op (OpSeek 2) (Next example_both_sides))"
proof -
  have h1: "\<not> Valid example_both_sides" by code_simp
  have h2: "is_seek (OpSeek (2::nat))" by simp
  have h3: "sub_status example_both_sides = OK" by code_simp
  have h4: "Valid (apply_op (OpSeek 2) (Next example_both_sides))" by code_simp
  from C10_seek_clears_NotSupported [OF h1 h2] h1 h2 h3 h4 show ?thesis by simp
qed




text \<open>
  C2. With base \<open>a, b, c\<close> and delta \<open>Delete(a)\<close>, \<open>SeekToFirst\<close> skips \<open>a\<close> and stands at
  \<open>b\<close>; \<open>Prev\<close> then makes the iterator valid at \<open>a\<close>, the key the delta deletes.
\<close>

theorem C2_deleted_key_is_returned:
  "is_tombstone (d_items (m_delta_iterator example_deleted_first) ! 0)
   \<and> we_key (d_items (m_delta_iterator example_deleted_first) ! 0) = 1
   \<and> Valid (SeekToFirst example_deleted_first)
   \<and> key (SeekToFirst example_deleted_first) = 2
   \<and> Valid (Prev (SeekToFirst example_deleted_first))
   \<and> key (Prev (SeekToFirst example_deleted_first)) = 1"
  by code_simp

text \<open>
  C7. With base \<open>a, e\<close>, delta \<open>Put(c), Put(z)\<close> and the upper bound \<open>m\<close>: the
  position \<open>c\<close> has the neighbours \<open>a\<close> and \<open>e\<close>; \<open>Next\<close> goes to \<open>e\<close>, and
  \<open>Prev\<close> from there goes to \<open>z\<close>, not back to \<open>c\<close>.
\<close>

theorem C7_Next_Prev_leaves_key:
  "Valid (run_ops [OpSeekToFirst, OpNext] example_flip_bound)
   \<and> key (run_ops [OpSeekToFirst, OpNext] example_flip_bound) = 3
   \<and> Valid (run_ops [OpSeekToFirst, OpNext, OpPrev] example_flip_bound)
   \<and> key (run_ops [OpSeekToFirst, OpNext, OpPrev] example_flip_bound) = 1
   \<and> Valid (run_ops [OpSeekToFirst, OpNext, OpNext] example_flip_bound)
   \<and> key (run_ops [OpSeekToFirst, OpNext, OpNext] example_flip_bound) = 5
   \<and> Valid (run_ops [OpSeekToFirst, OpNext, OpNext, OpPrev] example_flip_bound)
   \<and> key (run_ops [OpSeekToFirst, OpNext, OpNext, OpPrev] example_flip_bound) = 26"
  by code_simp

section \<open>Properties of the record decoder\<close>

text \<open>The tag table of the spec: each tag with the record kind it stands for.\<close>

definition spec_tag_table :: "TagTable \<Rightarrow> (int \<times> WriteType) list" where
  "spec_tag_table T =
     [(kTypeValue T, kPutRecord), (kTypeColumnFamilyValue T, kPutRecord),
      (kTypeDeletion T, kDeleteRecord), (kTypeColumnFamilyDeletion T, kDeleteRecord),
      (kTypeSingleDeletion T, kSingleDeleteRecord),
      (kTypeColumnFamilySingleDeletion T, kSingleDeleteRecord),
      (kTypeRangeDeletion T, kDeleteRangeRecord),
      (kTypeColumnFamilyRangeDeletion T, kDeleteRangeRecord),
      (kTypeMerge T, kMergeRecord), (kTypeColumnFamilyMerge T, kMergeRecord),
      (kTypeLogData T, kLogDataRecord),
      (kTypeNoop T, kXIDRecord), (kTypeBeginPrepareXID T, kXIDRecord),
      (kTypeBeginPersistedPrepareXID T, kXIDRecord), (kTypeBeginUnprepareXID T, kXIDRecord),
      (kTypeEndPrepareXID T, kXIDRecord), (kTypeCommitXID T, kXIDRecord),
      (kTypeRollbackXID T, kXIDRecord)]"

definition non_null :: "OutParams \<Rightarrow> bool" where
  "non_null ps =
     (p_type ps \<noteq> None \<and> p_key ps \<noteq> None \<and> p_value ps \<noteq> None \<and> p_blob ps \<noteq> None
      \<and> p_xid ps \<noteq> None)"

text \<open>What the decoder leaves in the output cells after it has read the record \<open>r\<close>.\<close>

definition decoded :: "OutParams \<Rightarrow> RawRecord \<Rightarrow> OutParams" where
  "decoded ps r =
     ps\<lparr>p_key := Some (rr_key r), p_value := Some (rr_value r),
        p_blob := Some (rr_blob r), p_xid := Some (rr_xid r)\<rparr>"

lemma tag_to_type_map_of: "tag_to_type T t = map_of (spec_tag_table T) (promoted t)"
  unfolding spec_tag_table_def tag_to_type_def Let_def by simp

lemma fst_spec_tag_table: "map fst (spec_tag_table T) = tag_list T"
  unfolding spec_tag_table_def tag_list_def by simp

lemma tag_to_type_table:
  assumes "tags_distinct T" and "(promoted t, kind) \<in> set (spec_tag_table T)"
  shows "tag_to_type T t = Some kind"
proof -
  from assms(1) have "distinct (map fst (spec_tag_table T))"
    by (simp only: fst_spec_tag_table tags_distinct_def)
  from map_of_is_SomeI [OF this assms(2)] show ?thesis
    by (simp only: tag_to_type_map_of)
qed

lemma tag_to_type_other:
  assumes "promoted t \<notin> fst ` set (spec_tag_table T)"
  shows "tag_to_type T t = None"
  using assms by (simp add: tag_to_type_map_of map_of_eq_None_iff)

text \<open>
  The tag as the \<open>switch\<close> sees it and as the source prints it: a byte below \<open>0x80\<close> is
  its own value; a byte from \<open>0x80\<close> on is promoted to a negative number and printed as
  the byte plus \<open>4294967040\<close>. The low byte of the printed number is the tag byte.
\<close>

lemma promoted_tag:
  "promoted tag = (if tag < 128 then uint tag else uint tag - 256)"
proof -
  have r: "0 \<le> uint tag" "uint tag < 256" using uint_lt2p [of tag] by simp_all
  have lt: "(tag < 128) = (uint tag < 128)" by (simp add: word_less_def)
  have s: "sint tag = (uint tag + 128) mod 256 - 128"
    by (simp add: sint_uint signed_take_bit_eq_take_bit_shift take_bit_eq_mod)
  show ?thesis
  proof (cases "uint tag < 128")
    case True
    with r have "(uint tag + 128) mod 256 = uint tag + 128" by (intro mod_pos_pos_trivial) simp_all
    with True s show ?thesis unfolding promoted_def lt by simp
  next
    case False
    with r have "(uint tag + 128 - 256) mod 256 = uint tag + 128 - 256"
      by (intro mod_pos_pos_trivial) simp_all
    moreover have "(uint tag + 128 - 256) mod 256 = (uint tag + 128) mod 256"
      using mod_add_self2 [of "uint tag + 128 - 256" 256] by (simp add: add.commute)
    ultimately show ?thesis using False s unfolding promoted_def lt by simp
  qed
qed

lemma to_unsigned_int_value:
  "to_unsigned_int tag = (if tag < 128 then ucast tag else 4294967040 + ucast tag)"
  using promoted_tag [of tag] by (simp add: to_unsigned_int_def promoted_def)

lemma ucast_word_of_int: "ucast (word_of_int k :: 32 word) = (word_of_int k :: 8 word)"
  by (rule bit_word_eqI) (simp add: bit_simps)

lemma to_unsigned_int_low: "ucast (to_unsigned_int tag) = tag"
  unfolding to_unsigned_int_def ucast_word_of_int by simp

text \<open>
  C8. With output pointers that are not null and an offset inside the buffer or at its
  end: the decoder returns \<open>NotFound\<close> exactly at the end of the buffer (the record
  reader itself never returns \<open>NotFound\<close>); a record whose tag is in the tag table is
  decoded to the kind the table gives; for a record with any other tag the decoder returns
  the status of the record reader when that is an error, and otherwise \<open>Corruption\<close> with
  the tag as the source prints it. The number printed is
  \<open>static_cast<unsigned int>(tag)\<close> of the \<open>char\<close>: the tag byte itself below \<open>0x80\<close>,
  the tag byte plus \<open>4294967040\<close> from \<open>0x80\<close> on, and the tag byte is its low byte. With
  a null output pointer the result is \<open>InvalidArgument\<close>.
\<close>

theorem C8_decoder_results:
  assumes "tags_distinct T" and "\<forall>input. fst (rr input) \<noteq> NotFound"
    and "data_offset \<le> length rep" and "non_null ps"
  shows "(fst (GetEntryFromDataOffset rr T rep data_offset ps) = NotFound)
           = (data_offset = length rep)
    \<and> (\<forall>r kind. data_offset < length rep \<and> rr (drop data_offset rep) = (OK, r)
           \<and> (promoted (rr_tag r), kind) \<in> set (spec_tag_table T)
         \<longrightarrow> GetEntryFromDataOffset rr T rep data_offset ps
               = (OK, (decoded ps r)\<lparr>p_type := Some kind\<rparr>))
    \<and> (\<forall>s r. data_offset < length rep \<and> rr (drop data_offset rep) = (s, r)
           \<and> promoted (rr_tag r) \<notin> fst ` set (spec_tag_table T)
         \<longrightarrow> GetEntryFromDataOffset rr T rep data_offset ps
               = (if s = OK
                  then Corruption ''unknown WriteBatch tag ''
                         (TagCode (to_unsigned_int (rr_tag r)))
                  else s, decoded ps r))
    \<and> (\<forall>tag. ucast (to_unsigned_int tag) = tag
           \<and> to_unsigned_int tag
               = (if tag < 128 then ucast tag else 4294967040 + ucast tag))
    \<and> (\<forall>ps'. \<not> non_null ps'
         \<longrightarrow> GetEntryFromDataOffset rr T rep data_offset ps'
               = (InvalidArgument ''Output parameters cannot be null'', ps'))"
proof (intro conjI allI impI)
  show "(fst (GetEntryFromDataOffset rr T rep data_offset ps) = NotFound)
           = (data_offset = length rep)"
  proof (cases "data_offset = length rep")
    case True
    with assms(4) show ?thesis
      by (simp add: GetEntryFromDataOffset_def non_null_def)
  next
    case False
    obtain s r where sr: "rr (drop data_offset rep) = (s, r)" by (cases "rr (drop data_offset rep)")
    with assms(2) have "s \<noteq> NotFound" by (metis fst_conv)
    with False assms(3,4) sr show ?thesis
      by (simp add: GetEntryFromDataOffset_def non_null_def Let_def ok_def
          split: option.splits)
  qed
next
  fix r kind
  assume a: "data_offset < length rep \<and> rr (drop data_offset rep) = (OK, r)
           \<and> (promoted (rr_tag r), kind) \<in> set (spec_tag_table T)"
  then have "tag_to_type T (rr_tag r) = Some kind"
    using tag_to_type_table [OF assms(1)] by blast
  with a assms(4) show "GetEntryFromDataOffset rr T rep data_offset ps
               = (OK, (decoded ps r)\<lparr>p_type := Some kind\<rparr>)"
    by (simp add: GetEntryFromDataOffset_def non_null_def Let_def ok_def decoded_def)
next
  fix s r
  assume a: "data_offset < length rep \<and> rr (drop data_offset rep) = (s, r)
           \<and> promoted (rr_tag r) \<notin> fst ` set (spec_tag_table T)"
  then have "tag_to_type T (rr_tag r) = None"
    using tag_to_type_other by blast
  with a assms(4) show "GetEntryFromDataOffset rr T rep data_offset ps
               = (if s = OK
                  then Corruption ''unknown WriteBatch tag ''
                         (TagCode (to_unsigned_int (rr_tag r)))
                  else s, decoded ps r)"
    by (auto simp: GetEntryFromDataOffset_def non_null_def Let_def ok_def decoded_def)
next
  fix tag :: "8 word"
  show "ucast (to_unsigned_int tag) = tag" by (rule to_unsigned_int_low)
  show "to_unsigned_int tag = (if tag < 128 then ucast tag else 4294967040 + ucast tag)"
    by (rule to_unsigned_int_value)
next
  fix ps'
  assume "\<not> non_null ps'"
  then show "GetEntryFromDataOffset rr T rep data_offset ps'
               = (InvalidArgument ''Output parameters cannot be null'', ps')"
    by (auto simp: GetEntryFromDataOffset_def non_null_def)
qed

lemma example_tags_distinct: "tags_distinct example_tags"
  by (simp add: tags_distinct_def tag_list_def example_tags_def)

lemma example_reader_never_NotFound: "\<forall>input. fst (example_reader input) \<noteq> NotFound"
  by (simp add: example_reader_def split: list.splits)

theorem C8_decoder_results_witness:
  "tags_distinct example_tags \<and> (\<forall>input. fst (example_reader input) \<noteq> NotFound)
   \<and> 12 \<le> length example_S4_data \<and> 12 \<le> length example_unknown_data
   \<and> non_null fresh_outs
   \<and> GetEntryFromDataOffset example_reader example_tags example_S4_data 12 fresh_outs
       = (OK, \<lparr>p_type = Some kMergeRecord, p_key = Some [107], p_value = Some [1],
               p_blob = Some [], p_xid = Some []\<rparr>)
   \<and> GetEntryFromDataOffset example_reader example_tags example_unknown_data 12 fresh_outs
       = (Corruption ''unknown WriteBatch tag '' (TagCode 4294967295),
          \<lparr>p_type = Some kPutRecord, p_key = Some [107], p_value = Some [1],
           p_blob = Some [], p_xid = Some []\<rparr>)"
proof -
  let ?m = "\<lparr>rr_tag = 2, rr_column_family = 0, rr_key = [107], rr_value = [1],
             rr_blob = [], rr_xid = []\<rparr>"
  let ?u = "\<lparr>rr_tag = 255, rr_column_family = 0, rr_key = [107], rr_value = [1],
             rr_blob = [], rr_xid = []\<rparr>"
  have h3: "12 \<le> length example_S4_data"
    by (simp add: example_S4_data_def example_header_def)
  have h3': "12 \<le> length example_unknown_data"
    by (simp add: example_unknown_data_def example_header_def)
  have h4: "non_null fresh_outs" by (simp add: non_null_def fresh_outs_def)
  have r: "12 < length example_S4_data
      \<and> example_reader (drop 12 example_S4_data) = (OK, ?m)
      \<and> (promoted (rr_tag ?m), kMergeRecord) \<in> set (spec_tag_table example_tags)"
    by (simp add: example_S4_data_def example_header_def example_reader_def
        spec_tag_table_def example_tags_def promoted_def)
  have u: "12 < length example_unknown_data
      \<and> example_reader (drop 12 example_unknown_data) = (OK, ?u)
      \<and> promoted (rr_tag ?u) \<notin> fst ` set (spec_tag_table example_tags)"
    by (simp add: example_unknown_data_def example_header_def example_reader_def
        spec_tag_table_def example_tags_def promoted_def)
  note t = C8_decoder_results [OF example_tags_distinct example_reader_never_NotFound h3 h4]
  note t' = C8_decoder_results [OF example_tags_distinct example_reader_never_NotFound h3' h4]
  have 1: "GetEntryFromDataOffset example_reader example_tags example_S4_data 12 fresh_outs
      = (OK, (decoded fresh_outs ?m)\<lparr>p_type := Some kMergeRecord\<rparr>)"
    by (rule mp [OF spec [OF spec [OF conjunct1 [OF conjunct2 [OF t]]]] r])
  have 2: "GetEntryFromDataOffset example_reader example_tags example_unknown_data 12 fresh_outs
      = (if OK = OK
         then Corruption ''unknown WriteBatch tag '' (TagCode (to_unsigned_int (rr_tag ?u)))
         else OK, decoded fresh_outs ?u)"
    by (rule mp [OF spec [OF spec [OF conjunct1 [OF conjunct2 [OF conjunct2 [OF t']]]]] u])
  have c: "to_unsigned_int 255 = 4294967295" by (simp add: to_unsigned_int_def)
  from 1 2 show ?thesis
    using example_tags_distinct example_reader_never_NotFound h3 h3' h4
    by (simp add: decoded_def fresh_outs_def c)
qed

section \<open>Properties of the batch lookup\<close>

text \<open>
  The state in which \<open>GetFromBatch\<close> enters its second loop, and the result it makes of
  the state in which the loop ends.
\<close>

definition scan_start ::
  "RecordReader \<Rightarrow> TagTable \<Rightarrow> ColumnFamilyHandle option \<Rightarrow> WriteBatchWithIndex \<Rightarrow> Slice
     \<Rightarrow> MergeContext \<Rightarrow> ScanState" where
  "scan_start rr T cf_handle batch k merge_context =
     (let cf = GetColumnFamilyID cf_handle;
          iter1 = skip_matching rr T cf k (WBWI_Seek k (NewIterator batch cf_handle))
      in \<lparr>sc_iter = (if \<not> WBWI_Valid iter1 then WBWI_SeekToLast iter1 else WBWI_Prev iter1),
          sc_result = kNotFound, sc_s = OK, sc_entry_value = [],
          sc_merge_context = merge_context\<rparr>)"

definition scan_finish ::
  "ColumnFamilyHandle option \<Rightarrow> Slice \<Rightarrow> Slice \<Rightarrow> ScanState
     \<Rightarrow> Result \<times> Status \<times> MergeContext \<times> Slice" where
  "scan_finish cf_handle k val0 st =
     (if ok (sc_s st) \<and> (sc_result st = kFound \<or> sc_result st = kDeleted) then
        (if length (sc_merge_context st) > 0 then
           (let (s1, v1) =
                  MergeKey cf_handle k
                    (if sc_result st = kFound then Some (sc_entry_value st) else None)
                    (sc_merge_context st) val0
            in (if ok s1 then kFound else kError, s1, sc_merge_context st, v1))
         else (sc_result st, sc_s st, sc_merge_context st,
               if sc_result st = kFound then sc_entry_value st else val0))
      else (sc_result st, sc_s st, sc_merge_context st, val0))"

lemma GetFromBatch_scan:
  "GetFromBatch rr T cf_handle batch k merge_context val0 overwrite_key =
     scan_finish cf_handle k val0
       (scan_loop rr T (GetColumnFamilyID cf_handle) k overwrite_key
          (scan_start rr T cf_handle batch k merge_context))"
  by (simp add: GetFromBatch_def scan_finish_def scan_start_def Let_def ok_def
      split: prod.splits)

text \<open>The states the second loop passes through, from a given state on.\<close>

inductive scan_visits ::
  "RecordReader \<Rightarrow> TagTable \<Rightarrow> 32 word \<Rightarrow> Slice \<Rightarrow> bool \<Rightarrow> ScanState \<Rightarrow> ScanState \<Rightarrow> bool"
  for rr T cf k overwrite_key where
    visits_here: "scan_visits rr T cf k overwrite_key st st"
  | visits_later:
      "scan_round rr T cf k overwrite_key st = Again n
       \<Longrightarrow> scan_visits rr T cf k overwrite_key n st'
       \<Longrightarrow> scan_visits rr T cf k overwrite_key st st'"

lemma scan_loop_visits:
  "scan_visits rr T cf k overwrite_key st st'
   \<Longrightarrow> scan_loop rr T cf k overwrite_key st = scan_loop rr T cf k overwrite_key st'"
  by (induction rule: scan_visits.induct) (simp_all add: scan_loop.simps [of _ _ _ _ _ st for st])

lemma scan_loop_DeleteRange:
  assumes "WBWI_Valid (sc_iter st)" and "MatchesKey rr T (sc_iter st) cf k"
    and "we_type (WBWI_Entry rr T (sc_iter st)) = kDeleteRangeRecord"
  shows "scan_loop rr T cf k overwrite_key st =
           st\<lparr>sc_result := kError,
              sc_s := Corruption ''Unexpected entry in WriteBatchWithIndex:''
                        (TypeCode kDeleteRangeRecord)\<rparr>"
  using assms
  by (simp add: scan_loop.simps [of _ _ _ _ _ st] scan_round_def scan_switch_def)

text \<open>
  C9. When the second loop of \<open>GetFromBatch\<close> comes to a record that matches the key and is
  a \<open>DeleteRange\<close> record, the lookup returns \<open>kError\<close> and sets the status
  \<open>Corruption\<close> (``Unexpected entry in WriteBatchWithIndex:'' with the record type), whatever
  it has seen before; it does not return \<open>kDeleted\<close>.
\<close>

theorem C9_DeleteRange_is_Corruption:
  assumes "scan_visits rr T (GetColumnFamilyID cf_handle) k overwrite_key
             (scan_start rr T cf_handle batch k merge_context) st"
    and "WBWI_Valid (sc_iter st)"
    and "MatchesKey rr T (sc_iter st) (GetColumnFamilyID cf_handle) k"
    and "we_type (WBWI_Entry rr T (sc_iter st)) = kDeleteRangeRecord"
  shows "fst (GetFromBatch rr T cf_handle batch k merge_context val0 overwrite_key) = kError
    \<and> fst (snd (GetFromBatch rr T cf_handle batch k merge_context val0 overwrite_key))
        = Corruption ''Unexpected entry in WriteBatchWithIndex:'' (TypeCode kDeleteRangeRecord)"
  unfolding GetFromBatch_scan scan_loop_visits [OF assms(1)]
    scan_loop_DeleteRange [OF assms(2,3,4)]
  by (simp add: scan_finish_def ok_def)

theorem C9_DeleteRange_is_Corruption_witness:
  "scan_visits example_reader example_tags (GetColumnFamilyID example_cf) [107] False
     (scan_start example_reader example_tags example_cf example_range_batch [107] [])
     example_range_state
   \<and> WBWI_Valid (sc_iter example_range_state)
   \<and> MatchesKey example_reader example_tags (sc_iter example_range_state)
        (GetColumnFamilyID example_cf) [107]
   \<and> we_type (WBWI_Entry example_reader example_tags (sc_iter example_range_state))
        = kDeleteRangeRecord
   \<and> fst (GetFromBatch example_reader example_tags example_cf example_range_batch [107] [] []
          False) = kError
   \<and> fst (snd (GetFromBatch example_reader example_tags example_cf example_range_batch [107]
          [] [] False))
       = Corruption ''Unexpected entry in WriteBatchWithIndex:'' (TypeCode kDeleteRangeRecord)"
proof -
  have r: "scan_round example_reader example_tags (GetColumnFamilyID example_cf) [107] False
             (scan_start example_reader example_tags example_cf example_range_batch [107] [])
           = Again example_range_state"
    by (simp add: scan_start_def lookup_defs example_defs skip_matching.simps)
  have h1: "scan_visits example_reader example_tags (GetColumnFamilyID example_cf) [107] False
     (scan_start example_reader example_tags example_cf example_range_batch [107] [])
     example_range_state"
    by (rule visits_later [OF r visits_here])
  have h2: "WBWI_Valid (sc_iter example_range_state)"
    by (simp add: lookup_defs example_defs)
  have h3: "MatchesKey example_reader example_tags (sc_iter example_range_state)
        (GetColumnFamilyID example_cf) [107]"
    by (simp add: lookup_defs example_defs)
  have h4: "we_type (WBWI_Entry example_reader example_tags (sc_iter example_range_state))
        = kDeleteRangeRecord"
    by (simp add: lookup_defs example_defs)
  from C9_DeleteRange_is_Corruption [OF h1 h2 h3 h4, of "[]"] h1 h2 h3 h4
  show ?thesis by simp
qed

section \<open>Properties of the entry comparator\<close>

text \<open>
  A key comparator that is a total order: equal arguments compare as \<open>0\<close>, swapping the
  arguments swaps the sign, and ``at most'' is transitive.
\<close>

definition is_total_order :: "Comparator \<Rightarrow> bool" where
  "is_total_order cmp =
     ((\<forall>a. cmp a a = 0) \<and> (\<forall>a b. (cmp a b < 0) = (cmp b a > 0))
      \<and> (\<forall>a b c. cmp a b \<le> 0 \<and> cmp b c \<le> 0 \<longrightarrow> cmp a c \<le> 0))"

definition comparators_ok :: "WriteBatchEntryComparator \<Rightarrow> bool" where
  "comparators_ok c =
     (is_total_order (default_comparator c) \<and>
      (\<forall>f. Some f \<in> set (cf_comparators c) \<longrightarrow> is_total_order f))"

lemma CompareKey_total_order:
  "comparators_ok c \<Longrightarrow> is_total_order (CompareKey c cf)"
proof -
  assume ok: "comparators_ok c"
  show ?thesis
  proof (cases "unat cf < length (cf_comparators c) \<and> cf_comparators c ! unat cf \<noteq> None")
    case True
    then obtain f where f: "cf_comparators c ! unat cf = Some f" by auto
    with True have "Some f \<in> set (cf_comparators c)" by (metis nth_mem)
    with ok have "is_total_order f" by (simp add: comparators_ok_def)
    moreover have "CompareKey c cf = f" using True f by (auto simp: CompareKey_def fun_eq_iff)
    ultimately show ?thesis by simp
  next
    case False
    then have "CompareKey c cf = default_comparator c"
      by (auto simp: CompareKey_def fun_eq_iff)
    with ok show ?thesis by (simp add: comparators_ok_def)
  qed
qed

lemma total_order_refl: "is_total_order cmp \<Longrightarrow> cmp a a = 0"
  by (simp add: is_total_order_def)

lemma total_order_swap: "is_total_order cmp \<Longrightarrow> (cmp a b < 0) = (cmp b a > 0)"
  by (simp add: is_total_order_def)

lemma total_order_zero: "is_total_order cmp \<Longrightarrow> (cmp a b = 0) = (cmp b a = 0)"
  using total_order_swap [of cmp a b] total_order_swap [of cmp b a] by fastforce

lemma total_order_trans:
  "is_total_order cmp \<Longrightarrow> cmp a b \<le> 0 \<Longrightarrow> cmp b c \<le> 0 \<Longrightarrow> cmp a c \<le> 0"
  unfolding is_total_order_def by blast

lemma total_order_trans_less1:
  assumes t: "is_total_order cmp" and ab: "cmp a b < 0" and bc: "cmp b c \<le> 0"
  shows "cmp a c < 0"
proof (rule ccontr)
  assume "\<not> cmp a c < 0"
  moreover have "cmp a c \<le> 0" using total_order_trans [OF t _ bc] ab by simp
  ultimately have "cmp a c = 0" by simp
  then have "cmp c a \<le> 0" using total_order_zero [OF t, of a c] by simp
  from total_order_trans [OF t bc this] have "cmp b a \<le> 0" .
  with ab total_order_swap [OF t, of a b] show False by simp
qed

lemma total_order_trans_less2:
  assumes t: "is_total_order cmp" and ab: "cmp a b \<le> 0" and bc: "cmp b c < 0"
  shows "cmp a c < 0"
proof (rule ccontr)
  assume "\<not> cmp a c < 0"
  moreover have "cmp a c \<le> 0" using total_order_trans [OF t ab] bc by simp
  ultimately have "cmp a c = 0" by simp
  then have "cmp c a \<le> 0" using total_order_zero [OF t, of a c] by simp
  from total_order_trans [OF t this ab] have "cmp c b \<le> 0" .
  with bc total_order_swap [OF t, of b c] show False by simp
qed

text \<open>The key of an entry as the comparator of its column family sees it.\<close>

definition key_order ::
  "WriteBatchEntryComparator \<Rightarrow> WriteBatchIndexEntry \<Rightarrow> WriteBatchIndexEntry \<Rightarrow> int" where
  "key_order c a b = CompareKey c (column_family a) (entry_key c a) (entry_key c b)"

lemma compare_entries_less:
  assumes "\<not> is_min_in_cf a" and "\<not> is_min_in_cf b"
  shows "(compare_entries c a b < 0) =
           (column_family a < column_family b \<or>
            (column_family a = column_family b \<and>
               (key_order c a b < 0 \<or> (key_order c a b = 0 \<and> offset a < offset b))))"
  using assms by (auto simp: compare_entries_def key_order_def Let_def)

lemma compare_entries_zero:
  assumes "\<not> is_min_in_cf a" and "\<not> is_min_in_cf b"
  shows "(compare_entries c a b = 0) =
           (column_family a = column_family b \<and> key_order c a b = 0 \<and> offset a = offset b)"
  using assms by (auto simp: compare_entries_def key_order_def Let_def)

lemma compare_entries_greater:
  assumes "\<not> is_min_in_cf a" and "\<not> is_min_in_cf b"
  shows "(compare_entries c a b > 0) =
           (column_family a > column_family b \<or>
            (column_family a = column_family b \<and>
               (key_order c a b > 0 \<or> (key_order c a b = 0 \<and> offset a > offset b))))"
  using assms by (auto simp: compare_entries_def key_order_def Let_def)

lemma compare_entries_le:
  assumes "\<not> is_min_in_cf a" and "\<not> is_min_in_cf b"
  shows "(compare_entries c a b \<le> 0) =
           (column_family a < column_family b \<or>
            (column_family a = column_family b \<and>
               (key_order c a b < 0 \<or> (key_order c a b = 0 \<and> offset a \<le> offset b))))"
  using compare_entries_less [OF assms, of c] compare_entries_zero [OF assms, of c]
  by (auto simp: order.order_iff_strict)

lemma key_order_props:
  assumes "comparators_ok c"
  shows "key_order c a a = 0"
    and "column_family a = column_family b \<Longrightarrow> (key_order c a b < 0) = (key_order c b a > 0)"
    and "column_family a = column_family b \<Longrightarrow> (key_order c a b = 0) = (key_order c b a = 0)"
    and "column_family a = column_family b \<Longrightarrow> column_family b = column_family d
         \<Longrightarrow> key_order c a b \<le> 0 \<Longrightarrow> key_order c b d \<le> 0 \<Longrightarrow> key_order c a d \<le> 0"
    and "column_family a = column_family b \<Longrightarrow> column_family b = column_family d
         \<Longrightarrow> key_order c a b < 0 \<Longrightarrow> key_order c b d \<le> 0 \<Longrightarrow> key_order c a d < 0"
    and "column_family a = column_family b \<Longrightarrow> column_family b = column_family d
         \<Longrightarrow> key_order c a b \<le> 0 \<Longrightarrow> key_order c b d < 0 \<Longrightarrow> key_order c a d < 0"
proof -
  note t = CompareKey_total_order [OF assms]
  show "key_order c a a = 0" unfolding key_order_def by (rule total_order_refl [OF t])
  show "column_family a = column_family b \<Longrightarrow> (key_order c a b < 0) = (key_order c b a > 0)"
    unfolding key_order_def using total_order_swap [OF t] by simp
  show "column_family a = column_family b \<Longrightarrow> (key_order c a b = 0) = (key_order c b a = 0)"
    unfolding key_order_def using total_order_zero [OF t] by simp
  show "column_family a = column_family b \<Longrightarrow> column_family b = column_family d
         \<Longrightarrow> key_order c a b \<le> 0 \<Longrightarrow> key_order c b d \<le> 0 \<Longrightarrow> key_order c a d \<le> 0"
    unfolding key_order_def using total_order_trans [OF t] by simp
  show "column_family a = column_family b \<Longrightarrow> column_family b = column_family d
         \<Longrightarrow> key_order c a b < 0 \<Longrightarrow> key_order c b d \<le> 0 \<Longrightarrow> key_order c a d < 0"
    unfolding key_order_def using total_order_trans_less1 [OF t] by simp
  show "column_family a = column_family b \<Longrightarrow> column_family b = column_family d
         \<Longrightarrow> key_order c a b \<le> 0 \<Longrightarrow> key_order c b d < 0 \<Longrightarrow> key_order c a d < 0"
    unfolding key_order_def using total_order_trans_less2 [OF t] by simp
qed

lemma compare_entries_swap:
  assumes "comparators_ok c" and "\<not> is_min_in_cf a" and "\<not> is_min_in_cf b"
  shows "(compare_entries c a b < 0) = (compare_entries c b a > 0)"
  unfolding compare_entries_less [OF assms(2,3)] compare_entries_greater [OF assms(3,2)]
  using key_order_props(2,3) [OF assms(1), of a b] by auto

lemma compare_entries_trans:
  assumes ok: "comparators_ok c"
    and "\<not> is_min_in_cf a" and "\<not> is_min_in_cf b" and "\<not> is_min_in_cf d"
    and ab: "compare_entries c a b \<le> 0" and bd: "compare_entries c b d \<le> 0"
  shows "compare_entries c a d \<le> 0"
proof -
  from ab have ab': "column_family a < column_family b \<or>
            (column_family a = column_family b \<and>
               (key_order c a b < 0 \<or> (key_order c a b = 0 \<and> offset a \<le> offset b)))"
    by (simp only: compare_entries_le [OF assms(2,3)])
  from bd have bd': "column_family b < column_family d \<or>
            (column_family b = column_family d \<and>
               (key_order c b d < 0 \<or> (key_order c b d = 0 \<and> offset b \<le> offset d)))"
    by (simp only: compare_entries_le [OF assms(3,4)])
  have "column_family a < column_family d \<or>
            (column_family a = column_family d \<and>
               (key_order c a d < 0 \<or> (key_order c a d = 0 \<and> offset a \<le> offset d)))"
  proof (cases "column_family a = column_family b \<and> column_family b = column_family d")
    case False
    with ab' bd' show ?thesis by auto
  next
    case True
    then have e: "column_family a = column_family b" "column_family b = column_family d" by simp_all
    from ab' bd' e have k: "key_order c a b \<le> 0" "key_order c b d \<le> 0" by auto
    show ?thesis
    proof (cases "key_order c a b < 0 \<or> key_order c b d < 0")
      case True
      then have "key_order c a d < 0"
        using key_order_props(5,6) [OF ok e] k by blast
      with e show ?thesis by simp
    next
      case False
      with k have z: "key_order c a b = 0" "key_order c b d = 0" by simp_all
      with ab' bd' e have o: "offset a \<le> offset d" by auto
      have "key_order c a d \<le> 0" using key_order_props(4) [OF ok e] z by simp
      with o e show ?thesis by auto
    qed
  qed
  then show ?thesis by (simp only: compare_entries_le [OF assms(2,4)])
qed

text \<open>
  C6. With key comparators that are total orders, the entry comparator is a total order on
  the index entries, the entries of the records of the batch (a \<open>MIN_IN_CF\<close> sentinel
  is not in the index: it is built as the target of a seek only): an entry is equal to
  itself, swapping the arguments swaps the sign, ``at most'' is transitive, and two
  entries are equal exactly when they agree in column family, key (under the comparator
  of the column family, the default comparator where none is set) and offset. The smaller
  column family comes first, for sentinels as well; a sentinel is less than every index
  entry of its column family; within a column family the keys decide; entries with equal
  keys are in the order of their offsets, so the latest record for a key is the last of
  them.
\<close>

theorem C6_entry_order:
  assumes "comparators_ok c"
    and "\<not> is_min_in_cf a" and "\<not> is_min_in_cf b" and "\<not> is_min_in_cf d"
  shows "compare_entries c a a = 0
    \<and> (compare_entries c a b < 0) = (compare_entries c b a > 0)
    \<and> (compare_entries c a b \<le> 0 \<and> compare_entries c b d \<le> 0
        \<longrightarrow> compare_entries c a d \<le> 0)
    \<and> (compare_entries c a b = 0)
        = (column_family a = column_family b \<and> key_order c a b = 0 \<and> offset a = offset b)
    \<and> (column_family a < column_family b \<longrightarrow> compare_entries c a b < 0)
    \<and> (\<forall>s. is_min_in_cf s \<and> column_family s = column_family a
          \<longrightarrow> compare_entries c s a < 0 \<and> compare_entries c a s > 0)
    \<and> (column_family a = column_family b \<and> key_order c a b \<noteq> 0
        \<longrightarrow> compare_entries c a b = key_order c a b)
    \<and> (column_family a = column_family b \<and> key_order c a b = 0 \<and> offset a < offset b
        \<longrightarrow> compare_entries c a b < 0 \<and> compare_entries c b a > 0)
    \<and> (\<forall>x y. column_family x < column_family y
          \<longrightarrow> compare_entries c x y < 0 \<and> compare_entries c y x > 0)"
proof (intro conjI)
  show "compare_entries c a a = 0"
    using key_order_props(1) [OF assms(1), of a] assms(2)
    by (simp add: compare_entries_zero)
  show "(compare_entries c a b < 0) = (compare_entries c b a > 0)"
    by (rule compare_entries_swap [OF assms(1,2,3)])
  show "compare_entries c a b \<le> 0 \<and> compare_entries c b d \<le> 0
        \<longrightarrow> compare_entries c a d \<le> 0"
    using compare_entries_trans [OF assms] by blast
  show "(compare_entries c a b = 0)
        = (column_family a = column_family b \<and> key_order c a b = 0 \<and> offset a = offset b)"
    by (rule compare_entries_zero [OF assms(2,3)])
  show "column_family a < column_family b \<longrightarrow> compare_entries c a b < 0"
    by (simp add: compare_entries_less assms)
  show "\<forall>s. is_min_in_cf s \<and> column_family s = column_family a
          \<longrightarrow> compare_entries c s a < 0 \<and> compare_entries c a s > 0"
    using assms(2) by (simp add: compare_entries_def)
  show "column_family a = column_family b \<and> key_order c a b \<noteq> 0
        \<longrightarrow> compare_entries c a b = key_order c a b"
    using assms(2,3) by (simp add: compare_entries_def key_order_def Let_def)
  show "column_family a = column_family b \<and> key_order c a b = 0 \<and> offset a < offset b
        \<longrightarrow> compare_entries c a b < 0 \<and> compare_entries c b a > 0"
    using compare_entries_swap [OF assms(1,2,3)] compare_entries_less [OF assms(2,3), of c]
    by blast
  show "\<forall>x y. column_family x < column_family y
          \<longrightarrow> compare_entries c x y < 0 \<and> compare_entries c y x > 0"
    by (auto simp: compare_entries_def)
qed

lemma bytewise_refl: "bytewise a a = 0"
  by (induction a) simp_all

lemma bytewise_swap: "(bytewise a b < 0) = (bytewise b a > 0)"
  by (induction a b rule: bytewise.induct) auto

lemma bytewise_trans: "bytewise a b \<le> 0 \<Longrightarrow> bytewise b c \<le> 0 \<Longrightarrow> bytewise a c \<le> 0"
proof (induction a b arbitrary: c rule: bytewise.induct)
  case (1)
  then show ?case by (cases c) simp_all
next
  case (2 y ys)
  then show ?case by (cases c) simp_all
next
  case (3 x xs)
  then show ?case by simp
next
  case (4 x xs y ys)
  show ?case
  proof (cases c)
    case Nil
    with 4(3) show ?thesis by simp
  next
    case (Cons z zs)
    with 4 show ?thesis by (auto split: if_splits)
  qed
qed

lemma bytewise_total_order: "is_total_order bytewise"
  unfolding is_total_order_def
  using bytewise_refl bytewise_swap bytewise_trans by blast

theorem C6_entry_order_witness:
  "comparators_ok example_S4_comparator
   \<and> \<not> is_min_in_cf (index_entry 12 0 13 1) \<and> \<not> is_min_in_cf (index_entry 15 0 16 1)
   \<and> \<not> is_min_in_cf (index_entry 18 0 19 1)
   \<and> key_order example_S4_comparator (index_entry 12 0 13 1) (index_entry 15 0 16 1) = 0
   \<and> compare_entries example_S4_comparator (index_entry 12 0 13 1) (index_entry 15 0 16 1) < 0
   \<and> compare_entries example_S4_comparator (index_entry 15 0 16 1) (index_entry 12 0 13 1) > 0
   \<and> compare_entries example_S4_comparator (index_entry 12 0 13 1) (index_entry 12 0 13 1) = 0
   \<and> compare_entries example_S4_comparator (search_entry None 0 True True)
        (index_entry 12 0 13 1) < 0"
proof -
  have h1: "comparators_ok example_S4_comparator"
    by (simp add: comparators_ok_def example_S4_comparator_def bytewise_total_order)
  have h2: "\<not> is_min_in_cf (index_entry 12 0 13 1)"
    and h3: "\<not> is_min_in_cf (index_entry 15 0 16 1)"
    and h4: "\<not> is_min_in_cf (index_entry 18 0 19 1)"
    by (simp_all add: is_min_in_cf_def index_entry_def kFlagMinInCf_def kMaxSizet_def)
  have k: "column_family (index_entry 12 0 13 1) = column_family (index_entry 15 0 16 1)
      \<and> key_order example_S4_comparator (index_entry 12 0 13 1) (index_entry 15 0 16 1) = 0
      \<and> offset (index_entry 12 0 13 1) < offset (index_entry 15 0 16 1)"
    by (simp add: key_order_def CompareKey_def entry_key_def data_slice_def index_entry_def
        example_S4_comparator_def example_S4_data_def example_header_def)
  have s: "is_min_in_cf (search_entry None 0 True True)
      \<and> column_family (search_entry None 0 True True) = column_family (index_entry 12 0 13 1)"
    by (simp add: is_min_in_cf_def search_entry_def index_entry_def)
  note t = C6_entry_order [OF h1 h2 h3 h4]
  from t have a: "compare_entries example_S4_comparator (index_entry 12 0 13 1)
                    (index_entry 12 0 13 1) = 0" by (rule conjunct1)
  from t k have b: "compare_entries example_S4_comparator (index_entry 12 0 13 1)
        (index_entry 15 0 16 1) < 0
      \<and> compare_entries example_S4_comparator (index_entry 15 0 16 1)
        (index_entry 12 0 13 1) > 0" by (elim conjE) (erule mp, rule k)
  from t s have e: "compare_entries example_S4_comparator (search_entry None 0 True True)
        (index_entry 12 0 13 1) < 0" by (elim conjE) (erule allE, erule impE, rule s, erule conjunct1)
  from a b e k h1 h2 h3 h4 show ?thesis by simp
qed

section \<open>The lookup as a fold over the records of a key\<close>

text \<open>
  The records of a key in the index, oldest first: the index entries of the column family
  whose key the comparator of the column family rates equal to the key. \<open>entry_at\<close> is
  the decoded record an index entry points at.
\<close>

definition matches_key ::
  "WriteBatchEntryComparator \<Rightarrow> 32 word \<Rightarrow> Slice \<Rightarrow> WriteBatchIndexEntry \<Rightarrow> bool" where
  "matches_key c cf k e = (column_family e = cf \<and> CompareKey c cf k (entry_key c e) = 0)"

definition records_for ::
  "WriteBatchEntryComparator \<Rightarrow> 32 word \<Rightarrow> Slice \<Rightarrow> WriteBatchIndexEntry list
     \<Rightarrow> WriteBatchIndexEntry list" where
  "records_for c cf k xs = filter (matches_key c cf k) xs"

definition entry_at ::
  "RecordReader \<Rightarrow> TagTable \<Rightarrow> Slice \<Rightarrow> WriteBatchIndexEntry \<Rightarrow> (Slice, Slice) WriteEntry" where
  "entry_at rr T rep e =
     (let (s, ps) = GetEntryFromDataOffset rr T rep (unat (offset e)) fresh_outs
      in \<lparr>we_type = the (p_type ps), we_key = the (p_key ps), we_value = the (p_value ps)\<rparr>)"

text \<open>
  The lookup in the words of the spec. The state is the result, the status, the value of
  the \<open>Put\<close> that was found and the operands. The records are taken newest first: a
  \<open>Put\<close> stops with \<open>kFound\<close>, a \<open>Delete\<close> or \<open>SingleDelete\<close> with \<open>kDeleted\<close>, a
  \<open>Merge\<close> pushes its operand and sets \<open>kMergeInProgress\<close>, \<open>LogData\<close> and \<open>XID\<close>
  records are passed over, any other kind stops with \<open>kError\<close> and a corruption status;
  after a record, \<open>kMergeInProgress\<close> with \<open>overwrite_key\<close> stops as well.
\<close>

record Lookup =
  lk_result :: Result
  lk_status :: Status
  lk_value :: Slice
  lk_operands :: "Slice list"

definition lookup_record :: "(Slice, Slice) WriteEntry \<Rightarrow> Lookup \<Rightarrow> Lookup" where
  "lookup_record e l =
     (if we_type e = kPutRecord then l\<lparr>lk_result := kFound, lk_value := we_value e\<rparr>
      else if we_type e = kMergeRecord
        then l\<lparr>lk_result := kMergeInProgress, lk_operands := lk_operands l @ [we_value e]\<rparr>
      else if we_type e = kDeleteRecord \<or> we_type e = kSingleDeleteRecord
        then l\<lparr>lk_result := kDeleted\<rparr>
      else if we_type e = kLogDataRecord \<or> we_type e = kXIDRecord then l
      else l\<lparr>lk_result := kError,
             lk_status := Corruption ''Unexpected entry in WriteBatchWithIndex:''
                            (TypeCode (we_type e))\<rparr>)"

fun lookup_records :: "bool \<Rightarrow> (Slice, Slice) WriteEntry list \<Rightarrow> Lookup \<Rightarrow> Lookup" where
  "lookup_records overwrite_key [] l = l"
| "lookup_records overwrite_key (e # es) l =
     (let l1 = lookup_record e l
      in if lk_result l1 = kFound \<or> lk_result l1 = kDeleted \<or> lk_result l1 = kError then l1
         else if overwrite_key \<and> lk_result l1 = kMergeInProgress then l1
         else lookup_records overwrite_key es l1)"

text \<open>
  The end of the lookup: with \<open>kFound\<close> or \<open>kDeleted\<close> and operands, the merge operator
  is applied over the value of the \<open>Put\<close>, or over no value; \<open>kFound\<close> with the merged
  value when it succeeds, \<open>kError\<close> when it fails.
\<close>

definition lookup_end ::
  "ColumnFamilyHandle option \<Rightarrow> Slice \<Rightarrow> Slice \<Rightarrow> Lookup
     \<Rightarrow> Result \<times> Status \<times> MergeContext \<times> Slice" where
  "lookup_end cf_handle k val0 l =
     (if lk_status l = OK \<and> (lk_result l = kFound \<or> lk_result l = kDeleted) then
        (if lk_operands l \<noteq> [] then
           (case MergeKey cf_handle k
                   (if lk_result l = kFound then Some (lk_value l) else None)
                   (lk_operands l) val0 of
              (s, merged) \<Rightarrow>
                (if s = OK then kFound else kError, s, lk_operands l, merged))
         else if lk_result l = kFound then (kFound, OK, [], lk_value l)
         else (kDeleted, OK, [], val0))
      else (lk_result l, lk_status l, lk_operands l, val0))"

definition lookup_newest_first ::
  "ColumnFamilyHandle option \<Rightarrow> Slice \<Rightarrow> Slice \<Rightarrow> bool \<Rightarrow> MergeContext
     \<Rightarrow> (Slice, Slice) WriteEntry list \<Rightarrow> Result \<times> Status \<times> MergeContext \<times> Slice" where
  "lookup_newest_first cf_handle k val0 overwrite_key merge_context records =
     lookup_end cf_handle k val0
       (lookup_records overwrite_key records
          \<lparr>lk_result = kNotFound, lk_status = OK, lk_value = [],
           lk_operands = merge_context\<rparr>)"

text \<open>
  The index the lookup relies on: key comparators that are total orders, the entries in
  the order of the entry comparator, none of them a sentinel, and each with the key of the
  record it points at.
\<close>

definition index_ok :: "RecordReader \<Rightarrow> TagTable \<Rightarrow> WriteBatchWithIndex \<Rightarrow> bool" where
  "index_ok rr T batch =
     (comparators_ok (wbwi_comparator batch) \<and>
      sorted_wrt (\<lambda>a b. compare_entries (wbwi_comparator batch) a b < 0) (wbwi_skip_list batch) \<and>
      (\<forall>e\<in>set (wbwi_skip_list batch).
         \<not> is_min_in_cf e \<and>
         we_key (entry_at rr T (wbwi_write_batch batch) e)
           = entry_key (wbwi_comparator batch) e))"

text \<open>The state of the lookup in a state of the second loop.\<close>

definition lookup_of :: "ScanState \<Rightarrow> Lookup" where
  "lookup_of st =
     \<lparr>lk_result = sc_result st, lk_status = sc_s st, lk_value = sc_entry_value st,
      lk_operands = sc_merge_context st\<rparr>"

lemma scan_finish_lookup_end:
  "scan_finish cf_handle k val0 st = lookup_end cf_handle k val0 (lookup_of st)"
  by (auto simp: scan_finish_def lookup_end_def lookup_of_def ok_def split: prod.splits)

lemma lookup_of_switch: "lookup_of (scan_switch e st) = lookup_record e (lookup_of st)"
  by (cases "we_type e") (simp_all add: scan_switch_def lookup_record_def lookup_of_def)

lemma lookup_of_iter [simp]: "lookup_of (st\<lparr>sc_iter := i\<rparr>) = lookup_of st"
  by (simp add: lookup_of_def)

text \<open>
  Where an entry stands with respect to a key of a column family: \<open>0\<close> before it (an
  earlier column family, or a smaller key), \<open>1\<close> at it, \<open>2\<close> after it.
\<close>

definition key_rank ::
  "WriteBatchEntryComparator \<Rightarrow> 32 word \<Rightarrow> Slice \<Rightarrow> WriteBatchIndexEntry \<Rightarrow> nat" where
  "key_rank c cf k e =
     (if column_family e < cf then 0
      else if cf < column_family e then 2
      else if CompareKey c cf (entry_key c e) k < 0 then 0
      else if CompareKey c cf (entry_key c e) k = 0 then 1
      else 2)"

lemma rank_Seek:
  assumes "\<not> is_min_in_cf e"
  shows "(compare_entries c e (search_entry (Some k) cf True False) < 0) = (key_rank c cf k e = 0)"
  using assms
  by (auto simp: compare_entries_def key_rank_def search_entry_def entry_key_def is_min_in_cf_def
      kFlagMinInCf_def kMaxSizet_def Let_def)

lemma rank_match:
  assumes "comparators_ok c"
  shows "matches_key c cf k e = (key_rank c cf k e = 1)"
  using total_order_zero [OF CompareKey_total_order [OF assms], of cf k "entry_key c e"]
  by (auto simp: matches_key_def key_rank_def)

lemma word_less_Suc:
  fixes x y :: "32 word"
  assumes "y + 1 \<noteq> 0"
  shows "(x < y + 1) = (x \<le> y)"
proof -
  from assms have "1 + y \<noteq> 0" by (simp add: add.commute)
  from unatSuc [OF this] show ?thesis
    by (simp add: word_less_nat_alt word_le_nat_alt less_Suc_eq_le add.commute)
qed

lemma rank_SeekToLast:
  assumes "\<not> is_min_in_cf e" and "cf + 1 \<noteq> 0"
  shows "(compare_entries c e (search_entry None (cf + 1) True True) < 0)
           = (column_family e \<le> cf)"
  using assms word_less_Suc [OF assms(2), of "column_family e"]
  by (auto simp: compare_entries_def search_entry_def is_min_in_cf_def Let_def)

lemma rank_column_family:
  "key_rank c cf k e \<le> 1 \<Longrightarrow> column_family e \<le> cf"
  "key_rank c cf k e = 2 \<Longrightarrow> column_family e \<noteq> cf \<Longrightarrow> \<not> column_family e \<le> cf"
  "key_rank c cf k e \<le> 2"
  by (auto simp: key_rank_def split: if_splits)

lemma rank_mono:
  assumes ok: "comparators_ok c" and a: "\<not> is_min_in_cf a" and b: "\<not> is_min_in_cf b"
    and lt: "compare_entries c a b < 0"
  shows "key_rank c cf k a \<le> key_rank c cf k b"
proof -
  note t = CompareKey_total_order [OF ok, of cf]
  from lt compare_entries_less [OF a b, of c]
  consider "column_family a < column_family b"
    | "column_family a = column_family b" "key_order c a b \<le> 0"
    by auto
  then show ?thesis
  proof cases
    case 1
    then show ?thesis by (auto simp: key_rank_def)
  next
    case 2
    show ?thesis
    proof (cases "column_family a = cf")
      case False
      with 2 show ?thesis by (auto simp: key_rank_def)
    next
      case True
      with 2 have ab: "CompareKey c cf (entry_key c a) (entry_key c b) \<le> 0"
        by (simp add: key_order_def)
      have 1: "CompareKey c cf (entry_key c b) k < 0 \<Longrightarrow> CompareKey c cf (entry_key c a) k < 0"
        using total_order_trans_less2 [OF t ab] .
      have 2: "CompareKey c cf (entry_key c b) k = 0 \<Longrightarrow> CompareKey c cf (entry_key c a) k \<le> 0"
        using total_order_trans [OF t ab] by simp
      from True \<open>column_family a = column_family b\<close> 1 2 show ?thesis
        by (auto simp: key_rank_def)
    qed
  qed
qed


lemma rank_split:
  fixes r :: "'a \<Rightarrow> nat"
  assumes "sorted_wrt (\<lambda>a b. r a \<le> r b) xs" and "\<forall>e\<in>set xs. r e \<le> 2"
  shows "xs = filter (\<lambda>e. r e = 0) xs @ filter (\<lambda>e. r e = 1) xs @ filter (\<lambda>e. r e = 2) xs"
  using assms
proof (induction xs)
  case Nil
  show ?case by simp
next
  case (Cons x xs)
  then have ih: "xs = filter (\<lambda>e. r e = 0) xs @ filter (\<lambda>e. r e = 1) xs @ filter (\<lambda>e. r e = 2) xs"
    and later: "\<forall>e\<in>set xs. r x \<le> r e" and x: "r x \<le> 2"
    by simp_all
  from x consider "r x = 0" | "r x = 1" | "r x = 2" by linarith
  then show ?case
  proof cases
    case 1
    with ih show ?thesis by simp
  next
    case 2
    with later have "filter (\<lambda>e. r e = 0) xs = []" by (auto simp: filter_empty_conv)
    with 2 ih show ?thesis by simp
  next
    case 3
    with later have "filter (\<lambda>e. r e = 0) xs = []" "filter (\<lambda>e. r e = 1) xs = []"
      by (auto simp: filter_empty_conv)
    with 3 ih show ?thesis by simp
  qed
qed

lemma takeWhile_prefix:
  assumes "\<forall>x\<in>set A. P x" and "R = [] \<or> \<not> P (hd R)"
  shows "takeWhile P (A @ R) = A"
  using assms by (cases R) (simp_all add: takeWhile_append2 takeWhile_tail)


text \<open>The iterator of the lookup with its cursor at a given place.\<close>

definition iter_at ::
  "WriteBatchWithIndex \<Rightarrow> ColumnFamilyHandle option \<Rightarrow> cursor \<Rightarrow> WBWIIteratorImpl" where
  "iter_at batch cf_handle p = (NewIterator batch cf_handle)\<lparr>skip_list_iter := p\<rparr>"

definition pos_at :: "'a list \<Rightarrow> nat \<Rightarrow> cursor" where
  "pos_at xs i = (if i < length xs then Some i else None)"

definition pos_before :: "nat \<Rightarrow> cursor" where
  "pos_before i = (if i = 0 then None else Some (i - 1))"

lemma iter_at_None [simp]: "\<not> WBWI_Valid (iter_at batch cf_handle None)"
  by (simp add: WBWI_Valid_def iter_at_def cur_valid_def)

lemma iter_at_Valid:
  "i < length (wbwi_skip_list batch) \<Longrightarrow>
   WBWI_Valid (iter_at batch cf_handle (Some i))
     = (column_family (wbwi_skip_list batch ! i) = GetColumnFamilyID cf_handle)"
  by (simp add: WBWI_Valid_def iter_at_def cur_valid_def NewIterator_def)

lemma iter_at_Entry:
  "WBWI_Entry rr T (iter_at batch cf_handle (Some i))
     = entry_at rr T (wbwi_write_batch batch) (wbwi_skip_list batch ! i)"
  by (simp add: WBWI_Entry_def entry_at_def iter_at_def NewIterator_def)

lemma iter_at_MatchesKey:
  assumes "index_ok rr T batch" and "i < length (wbwi_skip_list batch)"
  shows "MatchesKey rr T (iter_at batch cf_handle (Some i)) (GetColumnFamilyID cf_handle) k
     = matches_key (wbwi_comparator batch) (GetColumnFamilyID cf_handle) k
         (wbwi_skip_list batch ! i)"
proof -
  from assms have "we_key (entry_at rr T (wbwi_write_batch batch) (wbwi_skip_list batch ! i))
           = entry_key (wbwi_comparator batch) (wbwi_skip_list batch ! i)"
    by (simp add: index_ok_def)
  then show ?thesis
    using iter_at_Valid [OF assms(2), of cf_handle]
    by (simp add: MatchesKey_def iter_at_Entry matches_key_def)
       (simp add: iter_at_def NewIterator_def)
qed

lemma iter_at_Next:
  "WBWI_Next (iter_at batch cf_handle (Some i))
     = iter_at batch cf_handle (pos_at (wbwi_skip_list batch) (Suc i))"
  by (simp add: WBWI_Next_def iter_at_def NewIterator_def cur_next_def pos_at_def)

lemma iter_at_Prev:
  "WBWI_Prev (iter_at batch cf_handle (Some i)) = iter_at batch cf_handle (pos_before i)"
  by (simp add: WBWI_Prev_def iter_at_def NewIterator_def cur_prev_def pos_before_def)

text \<open>The first loop passes over the records of the key.\<close>

lemma skip_matching_at:
  assumes ok: "index_ok rr T batch"
    and xs: "wbwi_skip_list batch = P @ M @ B"
    and M: "\<forall>e\<in>set M. matches_key (wbwi_comparator batch) (GetColumnFamilyID cf_handle) k e"
    and B: "B = [] \<or> \<not> matches_key (wbwi_comparator batch) (GetColumnFamilyID cf_handle) k (hd B)"
  shows "skip_matching rr T (GetColumnFamilyID cf_handle) k
           (iter_at batch cf_handle (pos_at (wbwi_skip_list batch) (length P)))
         = iter_at batch cf_handle (pos_at (wbwi_skip_list batch) (length P + length M))"
  using xs M
proof (induction M arbitrary: P)
  case Nil
  show ?case
  proof (cases B)
    case Nil
    with \<open>wbwi_skip_list batch = P @ [] @ B\<close> show ?thesis
      by (simp add: pos_at_def skip_matching.simps)
  next
    case (Cons b B')
    with Nil.prems have i: "length P < length (wbwi_skip_list batch)"
      and b: "wbwi_skip_list batch ! length P = b" by simp_all
    from B Cons have "\<not> matches_key (wbwi_comparator batch) (GetColumnFamilyID cf_handle) k b"
      by simp
    with iter_at_MatchesKey [OF ok i, of cf_handle k] b i show ?thesis
      by (simp add: pos_at_def skip_matching.simps)
  qed
next
  case (Cons m M')
  then have i: "length P < length (wbwi_skip_list batch)"
    and m: "wbwi_skip_list batch ! length P = m" by simp_all
  from Cons.prems have mk: "matches_key (wbwi_comparator batch) (GetColumnFamilyID cf_handle) k m"
    by simp
  then have v: "column_family m = GetColumnFamilyID cf_handle" by (simp add: matches_key_def)
  from Cons.prems have "wbwi_skip_list batch = (P @ [m]) @ M' @ B"
    and "\<forall>e\<in>set M'. matches_key (wbwi_comparator batch) (GetColumnFamilyID cf_handle) k e"
    by simp_all
  from Cons.IH [OF this]
  have ih: "skip_matching rr T (GetColumnFamilyID cf_handle) k
              (iter_at batch cf_handle (pos_at (wbwi_skip_list batch) (Suc (length P))))
            = iter_at batch cf_handle (pos_at (wbwi_skip_list batch) (length P + length (m # M')))"
    by simp
  have "skip_matching rr T (GetColumnFamilyID cf_handle) k
           (iter_at batch cf_handle (pos_at (wbwi_skip_list batch) (length P)))
        = skip_matching rr T (GetColumnFamilyID cf_handle) k
           (iter_at batch cf_handle (pos_at (wbwi_skip_list batch) (Suc (length P))))"
    using i m mk v iter_at_MatchesKey [OF ok i, of cf_handle k] iter_at_Valid [OF i, of cf_handle]
    by (subst skip_matching.simps) (simp add: pos_at_def iter_at_Next)
  with ih show ?case by simp
qed


text \<open>The second loop folds the records of the key, the newest first.\<close>

lemma scan_loop_at:
  assumes ok: "index_ok rr T batch"
    and xs: "wbwi_skip_list batch = P @ M @ B"
    and M: "\<forall>e\<in>set M. matches_key (wbwi_comparator batch) (GetColumnFamilyID cf_handle) k e"
    and P: "\<forall>e\<in>set P. \<not> matches_key (wbwi_comparator batch) (GetColumnFamilyID cf_handle) k e"
    and st: "sc_iter st = iter_at batch cf_handle (pos_before (length P + length M))"
  shows "lookup_of (scan_loop rr T (GetColumnFamilyID cf_handle) k overwrite_key st)
         = lookup_records overwrite_key
             (rev (map (entry_at rr T (wbwi_write_batch batch)) M)) (lookup_of st)"
  using xs M st
proof (induction M arbitrary: B st rule: rev_induct)
  case Nil
  have "scan_round rr T (GetColumnFamilyID cf_handle) k overwrite_key st = Return st"
  proof (cases "P = []")
    case True
    with Nil.prems show ?thesis by (simp add: scan_round_def pos_before_def)
  next
    case False
    then have lp: "length P - 1 < length P" by (cases P) simp_all
    then have i: "length P - 1 < length (wbwi_skip_list batch)"
      using Nil.prems(1) by simp
    have l: "wbwi_skip_list batch ! (length P - 1) = last P"
      using Nil.prems(1) lp False by (simp add: nth_append last_conv_nth)
    from False P have "\<not> matches_key (wbwi_comparator batch) (GetColumnFamilyID cf_handle) k (last P)"
      by simp
    with iter_at_MatchesKey [OF ok i, of cf_handle k] l False Nil.prems show ?thesis
      by (simp add: scan_round_def pos_before_def)
  qed
  then show ?case by (simp add: scan_loop.simps [of _ _ _ _ _ st])
next
  case (snoc m M')
  let ?i = "length P + length M'"
  from snoc.prems have i: "?i < length (wbwi_skip_list batch)"
    and m: "wbwi_skip_list batch ! ?i = m"
    by (simp_all add: nth_append)
  from snoc.prems have it: "sc_iter st = iter_at batch cf_handle (Some ?i)"
    by (simp add: pos_before_def)
  from snoc.prems have mk: "matches_key (wbwi_comparator batch) (GetColumnFamilyID cf_handle) k m"
    by simp
  then have v: "WBWI_Valid (sc_iter st)"
    using iter_at_Valid [OF i, of cf_handle] m it by (simp add: matches_key_def)
  from mk have mt: "MatchesKey rr T (sc_iter st) (GetColumnFamilyID cf_handle) k"
    using iter_at_MatchesKey [OF ok i, of cf_handle k] m it by simp
  have en: "WBWI_Entry rr T (sc_iter st) = entry_at rr T (wbwi_write_batch batch) m"
    using it m by (simp add: iter_at_Entry)
  define st1 where "st1 = scan_switch (entry_at rr T (wbwi_write_batch batch) m) st"
  have l1: "lookup_of st1 = lookup_record (entry_at rr T (wbwi_write_batch batch) m) (lookup_of st)"
    by (simp add: st1_def lookup_of_switch)
  have res: "lk_result (lookup_of st1) = sc_result st1" by (simp add: lookup_of_def)
  have it1: "sc_iter st1 = sc_iter st"
    by (cases "we_type (entry_at rr T (wbwi_write_batch batch) m)")
       (simp_all add: st1_def scan_switch_def)
  show ?case
  proof (cases "sc_result st1 = kFound \<or> sc_result st1 = kDeleted \<or> sc_result st1 = kError
                \<or> (sc_result st1 = kMergeInProgress \<and> overwrite_key)")
    case True
    then have "scan_round rr T (GetColumnFamilyID cf_handle) k overwrite_key st = Return st1"
      using v mt en by (auto simp: scan_round_def st1_def Let_def)
    then have "scan_loop rr T (GetColumnFamilyID cf_handle) k overwrite_key st = st1"
      by (simp add: scan_loop.simps [of _ _ _ _ _ st])
    with True l1 res show ?thesis by (auto simp: Let_def)
  next
    case False
    define n where "n = st1\<lparr>sc_iter := WBWI_Prev (sc_iter st1)\<rparr>"
    from False have "scan_round rr T (GetColumnFamilyID cf_handle) k overwrite_key st = Again n"
      using v mt en by (auto simp: scan_round_def st1_def n_def Let_def)
    then have sl: "scan_loop rr T (GetColumnFamilyID cf_handle) k overwrite_key st
                 = scan_loop rr T (GetColumnFamilyID cf_handle) k overwrite_key n"
      by (simp add: scan_loop.simps [of _ _ _ _ _ st])
    have nit: "sc_iter n = iter_at batch cf_handle (pos_before (length P + length M'))"
      by (simp add: n_def it1 it iter_at_Prev)
    from snoc.prems have "wbwi_skip_list batch = P @ M' @ (m # B)"
      and "\<forall>e\<in>set M'. matches_key (wbwi_comparator batch) (GetColumnFamilyID cf_handle) k e"
      by simp_all
    from snoc.IH [OF this nit]
    have "lookup_of (scan_loop rr T (GetColumnFamilyID cf_handle) k overwrite_key n)
          = lookup_records overwrite_key
              (rev (map (entry_at rr T (wbwi_write_batch batch)) M')) (lookup_of st1)"
      by (simp add: n_def)
    with sl False l1 res show ?thesis by (auto simp: Let_def)
  qed
qed


text \<open>
  Between the loops the iterator is put on the entry before the one the first loop ended
  at: by \<open>Prev\<close>, or by \<open>SeekToLast\<close> when the first loop left the column family.
\<close>

lemma iter_at_SeekToLast:
  "WBWI_SeekToLast (iter_at batch cf_handle p)
   = iter_at batch cf_handle
       (let q = sl_Seek (wbwi_comparator batch) (wbwi_skip_list batch)
                  (search_entry None (GetColumnFamilyID cf_handle + 1) True True)
        in if \<not> cur_valid (wbwi_skip_list batch) q then cur_last (wbwi_skip_list batch)
           else cur_prev (wbwi_skip_list batch) q)"
  by (simp add: WBWI_SeekToLast_def iter_at_def NewIterator_def Let_def)

lemma step_back_at:
  assumes ok: "index_ok rr T batch" and cf: "GetColumnFamilyID cf_handle + 1 \<noteq> 0"
    and xs: "wbwi_skip_list batch = P @ B"
    and P: "\<forall>e\<in>set P. column_family e \<le> GetColumnFamilyID cf_handle"
    and B: "B = [] \<or> column_family (hd B) = GetColumnFamilyID cf_handle
              \<or> \<not> column_family (hd B) \<le> GetColumnFamilyID cf_handle"
  shows "(if \<not> WBWI_Valid (iter_at batch cf_handle (pos_at (wbwi_skip_list batch) (length P)))
          then WBWI_SeekToLast (iter_at batch cf_handle (pos_at (wbwi_skip_list batch) (length P)))
          else WBWI_Prev (iter_at batch cf_handle (pos_at (wbwi_skip_list batch) (length P))))
         = iter_at batch cf_handle (pos_before (length P))"
proof -
  let ?xs = "wbwi_skip_list batch"
  let ?c = "wbwi_comparator batch"
  let ?cf = "GetColumnFamilyID cf_handle"
  let ?t = "search_entry None (?cf + 1) True True"
  have tw: "takeWhile (\<lambda>e. compare_entries ?c e ?t < 0) ?xs
            = takeWhile (\<lambda>e. column_family e \<le> ?cf) ?xs"
  proof (rule takeWhile_cong [OF refl])
    fix e assume "e \<in> set ?xs"
    with ok have "\<not> is_min_in_cf e" by (simp add: index_ok_def)
    from rank_SeekToLast [OF this cf]
    show "(compare_entries ?c e ?t < 0) = (column_family e \<le> ?cf)" .
  qed
  show ?thesis
  proof (cases B)
    case Nil
    with xs P have all: "takeWhile (\<lambda>e. column_family e \<le> ?cf) ?xs = ?xs" by simp
    have "sl_Seek ?c ?xs ?t = None" unfolding sl_Seek_def tw all by simp
    with Nil xs show ?thesis
      by (simp add: pos_at_def iter_at_SeekToLast cur_valid_def cur_last_def pos_before_def)
  next
    case (Cons b B')
    with xs have i: "length P < length ?xs" and b: "?xs ! length P = b" by simp_all
    show ?thesis
    proof (cases "column_family b = ?cf")
      case True
      with iter_at_Valid [OF i, of cf_handle] b i show ?thesis
        by (simp add: pos_at_def iter_at_Prev)
    next
      case False
      with B Cons have "\<not> column_family b \<le> ?cf" by simp
      with P Cons have "takeWhile (\<lambda>e. column_family e \<le> ?cf) (P @ B) = P"
        by (intro takeWhile_prefix) simp_all
      then have part: "takeWhile (\<lambda>e. column_family e \<le> ?cf) ?xs = P" by (simp only: xs)
      have "sl_Seek ?c ?xs ?t = Some (length P)" unfolding sl_Seek_def tw part using i by simp
      with False iter_at_Valid [OF i, of cf_handle] b i show ?thesis
        by (simp add: pos_at_def iter_at_SeekToLast cur_valid_def cur_prev_def pos_before_def)
    qed
  qed
qed

text \<open>\<open>Seek\<close> puts the iterator on the first entry that is not before the key.\<close>

lemma Seek_at:
  assumes ok: "index_ok rr T batch"
    and xs: "wbwi_skip_list batch = A @ R"
    and A: "\<forall>e\<in>set A. key_rank (wbwi_comparator batch) (GetColumnFamilyID cf_handle) k e = 0"
    and R: "R = [] \<or> key_rank (wbwi_comparator batch) (GetColumnFamilyID cf_handle) k (hd R) \<noteq> 0"
  shows "WBWI_Seek k (NewIterator batch cf_handle)
         = iter_at batch cf_handle (pos_at (wbwi_skip_list batch) (length A))"
proof -
  let ?xs = "wbwi_skip_list batch"
  let ?c = "wbwi_comparator batch"
  let ?cf = "GetColumnFamilyID cf_handle"
  let ?t = "search_entry (Some k) ?cf True False"
  have tw: "takeWhile (\<lambda>e. compare_entries ?c e ?t < 0) ?xs
            = takeWhile (\<lambda>e. key_rank ?c ?cf k e = 0) ?xs"
  proof (rule takeWhile_cong [OF refl])
    fix e assume "e \<in> set ?xs"
    with ok have "\<not> is_min_in_cf e" by (simp add: index_ok_def)
    from rank_Seek [OF this]
    show "(compare_entries ?c e ?t < 0) = (key_rank ?c ?cf k e = 0)" .
  qed
  have "takeWhile (\<lambda>e. key_rank ?c ?cf k e = 0) (A @ R) = A"
    using A R by (intro takeWhile_prefix) simp_all
  then have part: "takeWhile (\<lambda>e. key_rank ?c ?cf k e = 0) ?xs = A" by (simp only: xs)
  have "sl_Seek ?c ?xs ?t = pos_at ?xs (length A)"
    unfolding sl_Seek_def tw part by (simp add: pos_at_def)
  then show ?thesis by (simp add: WBWI_Seek_def iter_at_def NewIterator_def)
qed

lemma index_sorted_rank:
  assumes ok: "index_ok rr T batch"
  shows "sorted_wrt (\<lambda>a b. key_rank (wbwi_comparator batch) cf k a
                          \<le> key_rank (wbwi_comparator batch) cf k b) (wbwi_skip_list batch)"
proof (rule sorted_wrt_mono_rel [of _ "\<lambda>a b. compare_entries (wbwi_comparator batch) a b < 0"])
  from ok show "sorted_wrt (\<lambda>a b. compare_entries (wbwi_comparator batch) a b < 0)
                  (wbwi_skip_list batch)"
    by (simp add: index_ok_def)
next
  fix a b
  assume "a \<in> set (wbwi_skip_list batch)" and "b \<in> set (wbwi_skip_list batch)"
    and lt: "compare_entries (wbwi_comparator batch) a b < 0"
  with ok have "\<not> is_min_in_cf a" and "\<not> is_min_in_cf b" and "comparators_ok (wbwi_comparator batch)"
    by (simp_all add: index_ok_def)
  from rank_mono [OF this(3) this(1) this(2) lt]
  show "key_rank (wbwi_comparator batch) cf k a \<le> key_rank (wbwi_comparator batch) cf k b" .
qed

text \<open>
  For a column family whose id is not the largest one, \<open>GetFromBatch\<close> is the lookup of
  the spec over the records of the key, the newest first.
\<close>

lemma GetFromBatch_newest_first:
  assumes ok: "index_ok rr T batch" and cf: "GetColumnFamilyID cf_handle + 1 \<noteq> 0"
  shows "GetFromBatch rr T cf_handle batch k merge_context val0 overwrite_key
         = lookup_newest_first cf_handle k val0 overwrite_key merge_context
             (rev (map (entry_at rr T (wbwi_write_batch batch))
                (records_for (wbwi_comparator batch) (GetColumnFamilyID cf_handle) k
                   (wbwi_skip_list batch))))"
proof -
  let ?xs = "wbwi_skip_list batch"
  let ?c = "wbwi_comparator batch"
  let ?cf = "GetColumnFamilyID cf_handle"
  let ?r = "key_rank ?c ?cf k"
  define A where "A = filter (\<lambda>e. ?r e = 0) ?xs"
  define M where "M = filter (\<lambda>e. ?r e = 1) ?xs"
  define B where "B = filter (\<lambda>e. ?r e = 2) ?xs"
  from ok have cok: "comparators_ok ?c" by (simp add: index_ok_def)
  have xs: "?xs = A @ M @ B"
    unfolding A_def M_def B_def
    by (rule rank_split [OF index_sorted_rank [OF ok]]) (simp add: rank_column_family)
  have rA: "\<forall>e\<in>set A. ?r e = 0" and rM: "\<forall>e\<in>set M. ?r e = 1" and rB: "\<forall>e\<in>set B. ?r e = 2"
    by (simp_all add: A_def M_def B_def)
  have hB: "B = [] \<or> ?r (hd B) = 2" using rB by (cases B) simp_all
  have hMB: "M @ B = [] \<or> ?r (hd (M @ B)) \<noteq> 0" using rM rB by (cases M; cases B) simp_all
  have mA: "\<forall>e\<in>set A. \<not> matches_key ?c ?cf k e" using rA by (simp add: rank_match [OF cok])
  have mM: "\<forall>e\<in>set M. matches_key ?c ?cf k e" using rM by (simp add: rank_match [OF cok])
  have mB: "B = [] \<or> \<not> matches_key ?c ?cf k (hd B)" using hB by (auto simp: rank_match [OF cok])
  have recs: "records_for ?c ?cf k ?xs = M"
    unfolding records_for_def M_def
    by (rule filter_cong [OF refl]) (simp add: rank_match [OF cok])
  have 1: "WBWI_Seek k (NewIterator batch cf_handle) = iter_at batch cf_handle (pos_at ?xs (length A))"
    by (rule Seek_at [OF ok xs rA hMB])
  have 2: "skip_matching rr T ?cf k (iter_at batch cf_handle (pos_at ?xs (length A)))
           = iter_at batch cf_handle (pos_at ?xs (length A + length M))"
    by (rule skip_matching_at [OF ok xs mM mB])
  have xs': "?xs = (A @ M) @ B" using xs by simp
  have cAM: "\<forall>e\<in>set (A @ M). column_family e \<le> ?cf"
  proof
    fix e assume "e \<in> set (A @ M)"
    with rA rM have "key_rank ?c ?cf k e \<le> 1" by auto
    then show "column_family e \<le> ?cf" by (rule rank_column_family(1))
  qed
  have cB: "B = [] \<or> column_family (hd B) = ?cf \<or> \<not> column_family (hd B) \<le> ?cf"
    using hB rank_column_family(2) [of ?c ?cf k "hd B"] by auto
  have 3: "(if \<not> WBWI_Valid (iter_at batch cf_handle (pos_at ?xs (length A + length M)))
            then WBWI_SeekToLast (iter_at batch cf_handle (pos_at ?xs (length A + length M)))
            else WBWI_Prev (iter_at batch cf_handle (pos_at ?xs (length A + length M))))
           = iter_at batch cf_handle (pos_before (length A + length M))"
    using step_back_at [OF ok cf xs' cAM cB] unfolding length_append .
  have st: "scan_start rr T cf_handle batch k merge_context
            = \<lparr>sc_iter = iter_at batch cf_handle (pos_before (length A + length M)),
               sc_result = kNotFound, sc_s = OK, sc_entry_value = [],
               sc_merge_context = merge_context\<rparr>"
    unfolding scan_start_def Let_def 1 2 3 ..
  have "lookup_of (scan_loop rr T ?cf k overwrite_key
                     (scan_start rr T cf_handle batch k merge_context))
        = lookup_records overwrite_key (rev (map (entry_at rr T (wbwi_write_batch batch)) M))
            (lookup_of (scan_start rr T cf_handle batch k merge_context))"
    by (rule scan_loop_at [OF ok xs mM mA]) (simp add: st)
  then show ?thesis
    unfolding GetFromBatch_scan scan_finish_lookup_end lookup_newest_first_def recs
    by (simp add: st lookup_of_def)
qed


text \<open>The examples have an index as the lookup needs it, and scenario S4 of the spec.\<close>

lemma example_S4_index_ok: "index_ok example_reader example_tags example_S4_batch"
proof -
  have "comparators_ok (wbwi_comparator example_S4_batch)"
    by (simp add: comparators_ok_def bytewise_total_order example_defs)
  moreover have "sorted_wrt (\<lambda>a b. compare_entries (wbwi_comparator example_S4_batch) a b < 0)
                   (wbwi_skip_list example_S4_batch)"
    by (simp add: lookup_defs example_defs)
  moreover have "\<forall>e\<in>set (wbwi_skip_list example_S4_batch).
         \<not> is_min_in_cf e \<and>
         we_key (entry_at example_reader example_tags (wbwi_write_batch example_S4_batch) e)
           = entry_key (wbwi_comparator example_S4_batch) e"
    by (simp add: entry_at_def lookup_defs example_defs)
  ultimately show ?thesis by (simp only: index_ok_def simp_thms)
qed

lemma example_last_index_ok: "index_ok example_reader example_tags example_last_batch"
proof -
  have "comparators_ok (wbwi_comparator example_last_batch)"
    by (simp add: comparators_ok_def bytewise_total_order last_defs)
  moreover have "sorted_wrt (\<lambda>a b. compare_entries (wbwi_comparator example_last_batch) a b < 0)
                   (wbwi_skip_list example_last_batch)"
    by (simp add: last_defs)
  moreover have "\<forall>e\<in>set (wbwi_skip_list example_last_batch).
         \<not> is_min_in_cf e \<and>
         we_key (entry_at example_reader example_tags (wbwi_write_batch example_last_batch) e)
           = entry_key (wbwi_comparator example_last_batch) e"
    by (simp add: entry_at_def lookup_defs example_defs last_defs)
  ultimately show ?thesis by (simp only: index_ok_def simp_thms)
qed

lemma example_S4_lookup:
  "GetFromBatch example_reader example_tags example_cf example_S4_batch [107] [] [] False
     = (kFound, OK, [[5]], [15])
   \<and> GetFromBatch example_reader example_tags example_cf example_S4_batch [107] [] [] True
     = (kMergeInProgress, OK, [[5]], [])"
  by (simp add: GetFromBatch_def lookup_defs example_defs skip_matching.simps scan_loop.simps)

lemma example_S4_newest_first:
  "lookup_newest_first example_cf [107] [] False []
     (rev (map (entry_at example_reader example_tags (wbwi_write_batch example_S4_batch))
        (records_for (wbwi_comparator example_S4_batch) (GetColumnFamilyID example_cf) [107]
           (wbwi_skip_list example_S4_batch))))
   = (kFound, OK, [[5]], [15])"
proof -
  have "GetColumnFamilyID example_cf + 1 \<noteq> 0" by (simp add: GetColumnFamilyID_def example_cf_def)
  from GetFromBatch_newest_first [OF example_S4_index_ok this, of "[107]" "[]" "[]" False]
    example_S4_lookup
  show ?thesis by simp
qed


text \<open>
  C3. \<open>GetFromBatch\<close> returns what the lookup of the spec makes of the records of the key,
  the newest first. This holds for every column family but the one with the largest id
  (\<open>GetFromBatch_newest_first\<close>), and scenario S4 gives \<open>kFound\<close> with the value 15, and
  \<open>kMergeInProgress\<close> with the operand \<open>+5\<close> when \<open>overwrite_key\<close> is set
  (\<open>example_S4_lookup\<close>). It fails for the column family \<open>4294967295\<close>: the first loop
  runs off the end of the index, \<open>SeekToLast\<close> looks for column family \<open>4294967295 + 1\<close>,
  which is \<open>0\<close>, lands on the first entry and steps back before it. For the batch whose one
  record is \<open>Put(k, 10)\<close> in that column family the lookup returns \<open>kNotFound\<close>, where
  the records of \<open>k\<close> folded newest first give \<open>kFound\<close> with the value 10.
\<close>

theorem C3_last_column_family_not_found:
  "GetFromBatch example_reader example_tags example_last_cf example_last_batch [107] [] []
     False = (kNotFound, OK, [], [])
   \<and> lookup_newest_first example_last_cf [107] [] False []
       (rev (map (entry_at example_reader example_tags (wbwi_write_batch example_last_batch))
          (records_for (wbwi_comparator example_last_batch)
             (GetColumnFamilyID example_last_cf) [107] (wbwi_skip_list example_last_batch))))
     = (kFound, OK, [], [10])"
proof -
  have "GetFromBatch example_reader example_tags example_last_cf example_last_batch [107] [] []
          False = (kNotFound, OK, [], [])"
    by (simp add: GetFromBatch_def lookup_defs example_defs last_defs skip_matching.simps
        scan_loop.simps)
  moreover have "lookup_newest_first example_last_cf [107] [] False []
       (rev (map (entry_at example_reader example_tags (wbwi_write_batch example_last_batch))
          (records_for (wbwi_comparator example_last_batch)
             (GetColumnFamilyID example_last_cf) [107] (wbwi_skip_list example_last_batch))))
     = (kFound, OK, [], [10])"
    by (simp add: lookup_newest_first_def lookup_end_def lookup_record_def records_for_def
        matches_key_def entry_at_def lookup_defs example_defs last_defs)
  ultimately show ?thesis by (rule conjI)
qed

end
